theory Spec2Isabelle
  imports Main
begin

section \<open>Characters and strings of the Python program\<close>

text \<open>
  A Python \<open>str\<close> is modelled as a \<open>string\<close> whose characters are the code points
  below 256. The character classes are those of CPython for these code points:
  \<open>is_space\<close> is \<open>str.isspace\<close> (it decides \<open>\s\<close>, \<open>str.split()\<close> and \<open>str.strip()\<close>),
  \<open>is_word\<close> is \<open>str.isalnum\<close> or an underscore (it decides \<open>\w\<close> and \<open>\b\<close>), and
  \<open>lower\<close> is the simple lower-case mapping that \<open>re.IGNORECASE\<close> compares with.
\<close>

definition code :: "char \<Rightarrow> nat" where
  "code c = of_char c"

definition is_space :: "char \<Rightarrow> bool" where
  "is_space c = (let n = code c in (9 \<le> n \<and> n \<le> 13) \<or> (28 \<le> n \<and> n \<le> 32) \<or> n = 133 \<or> n = 160)"

definition is_word :: "char \<Rightarrow> bool" where
  "is_word c = (let n = code c in
     (48 \<le> n \<and> n \<le> 57) \<or> (65 \<le> n \<and> n \<le> 90) \<or> n = 95 \<or> (97 \<le> n \<and> n \<le> 122) \<or>
     n = 170 \<or> n = 178 \<or> n = 179 \<or> n = 181 \<or> n = 185 \<or> n = 186 \<or> (188 \<le> n \<and> n \<le> 190) \<or>
     (192 \<le> n \<and> n \<le> 214) \<or> (216 \<le> n \<and> n \<le> 246) \<or> (248 \<le> n \<and> n \<le> 255))"

definition is_ascii_letter :: "char \<Rightarrow> bool" where
  "is_ascii_letter c = (let n = code c in (65 \<le> n \<and> n \<le> 90) \<or> (97 \<le> n \<and> n \<le> 122))"

definition lower :: "char \<Rightarrow> char" where
  "lower c = (let n = code c in
     if (65 \<le> n \<and> n \<le> 90) \<or> (192 \<le> n \<and> n \<le> 214) \<or> (216 \<le> n \<and> n \<le> 222)
     then char_of (n + 32) else c)"

text \<open>\<open>str.strip()\<close>, \<open>str.split()\<close> with no separator, and \<open>sep.join(words)\<close>.\<close>

definition py_strip :: "string \<Rightarrow> string" where
  "py_strip s = rev (dropWhile is_space (rev (dropWhile is_space s)))"

function py_split :: "string \<Rightarrow> string list" where
  "py_split s =
     (case dropWhile is_space s of
        [] \<Rightarrow> []
      | x # xs \<Rightarrow> (x # takeWhile (\<lambda>c. \<not> is_space c) xs) # py_split (dropWhile (\<lambda>c. \<not> is_space c) xs))"
  by pat_completeness auto
termination
proof (relation "measure length", goal_cases)
  case 1
  show ?case by simp
next
  case (2 s x xs)
  have "length (dropWhile (\<lambda>c. \<not> is_space c) xs) \<le> length xs"
    by (rule length_dropWhile_le)
  moreover have "length (x # xs) \<le> length s"
    using 2 length_dropWhile_le[of is_space s] by simp
  ultimately show ?case by simp
qed

declare py_split.simps [simp del]

fun py_join :: "string \<Rightarrow> string list \<Rightarrow> string" where
  "py_join sep [] = []"
| "py_join sep [w] = w"
| "py_join sep (w # ws) = w @ sep @ py_join sep ws"

text \<open>\<open>needle in haystack\<close> on strings.\<close>

fun contains :: "string \<Rightarrow> string \<Rightarrow> bool" where
  "contains [] needle = (needle = [])"
| "contains (x # xs) needle = (take (length needle) (x # xs) = needle \<or> contains xs needle)"

section \<open>The regular expressions of \<open>re\<close>\<close>

text \<open>
  The patterns of the program use literals, the classes \<open>\w\<close>, \<open>\s\<close>, \<open>.\<close> and \<open>[a-zA-Z]\<close>,
  capturing and non-capturing groups, a back-reference, greedy and lazy repetition,
  alternation, \<open>\b\<close> and \<open>$\<close>, under the flags \<open>IGNORECASE\<close> and \<open>DOTALL\<close>.
  \<open>Rep r m n g\<close> is \<open>r{m,n}\<close> (no upper bound when \<open>n\<close> is \<open>None\<close>), greedy when \<open>g\<close> holds.
\<close>

datatype cclass = Word | Space | Dot | AsciiLetter

datatype regex =
    Chr char
  | Cls cclass
  | Eps
  | Seq regex regex
  | Alt regex regex
  | Rep regex nat "nat option" bool
  | Group nat regex
  | Backref nat
  | WordB
  | Eos

record flags =
  ignorecase :: bool
  dotall :: bool

type_synonym caps = "nat \<rightharpoonup> string"

definition chr_eq :: "flags \<Rightarrow> char \<Rightarrow> char \<Rightarrow> bool" where
  "chr_eq fl a b = (if ignorecase fl then lower a = lower b else a = b)"

definition str_eq :: "flags \<Rightarrow> string \<Rightarrow> string \<Rightarrow> bool" where
  "str_eq fl a b = (if ignorecase fl then map lower a = map lower b else a = b)"

fun in_class :: "flags \<Rightarrow> cclass \<Rightarrow> char \<Rightarrow> bool" where
  "in_class fl Word c = is_word c"
| "in_class fl Space c = is_space c"
| "in_class fl Dot c = (dotall fl \<or> c \<noteq> CHR 0x0A)"
| "in_class fl AsciiLetter c = is_ascii_letter c"

definition word_boundary :: "string \<Rightarrow> nat \<Rightarrow> bool" where
  "word_boundary t p =
     ((0 < p \<and> p \<le> length t \<and> is_word (t ! (p - 1))) \<noteq> (p < length t \<and> is_word (t ! p)))"

definition at_end :: "string \<Rightarrow> nat \<Rightarrow> bool" where
  "at_end t p = (p = length t \<or> (Suc p = length t \<and> t ! p = CHR 0x0A))"

fun rsize :: "regex \<Rightarrow> nat" where
  "rsize (Seq a b) = Suc (rsize a + rsize b)"
| "rsize (Alt a b) = Suc (rsize a + rsize b)"
| "rsize (Rep a mn mx g) = Suc (rsize a)"
| "rsize (Group n a) = Suc (rsize a)"
| "rsize r = 0"

text \<open>
  \<open>rmatch fl t r p c\<close> lists every way \<open>r\<close> matches the text \<open>t\<close> from position \<open>p\<close> with
  the groups \<open>c\<close> captured so far, as end position and groups, in the order in which the
  backtracking matcher of \<open>re\<close> tries them: the first element is the match \<open>re\<close> reports.
  A repetition goes round again only after an iteration that consumed a character, as
  in \<open>re\<close>; no pattern of the program has an iteration that can be empty.
\<close>

function rmatch :: "flags \<Rightarrow> string \<Rightarrow> regex \<Rightarrow> nat \<Rightarrow> caps \<Rightarrow> (nat \<times> caps) list" where
  "rmatch fl t (Chr x) p c = (if p < length t \<and> chr_eq fl (t ! p) x then [(Suc p, c)] else [])"
| "rmatch fl t (Cls k) p c = (if p < length t \<and> in_class fl k (t ! p) then [(Suc p, c)] else [])"
| "rmatch fl t Eps p c = [(p, c)]"
| "rmatch fl t (Seq a b) p c = concat (map (\<lambda>(q, d). rmatch fl t b q d) (rmatch fl t a p c))"
| "rmatch fl t (Alt a b) p c = rmatch fl t a p c @ rmatch fl t b p c"
| "rmatch fl t (Rep a mn mx g) p c =
     (let more = (if mx = Some 0 then []
                  else concat (map (\<lambda>(q, d). if p < q \<and> q \<le> length t
                                              then rmatch fl t (Rep a (mn - 1) (map_option (\<lambda>k. k - 1) mx) g) q d
                                              else [])
                                   (rmatch fl t a p c)));
          stop = (if mn = 0 then [(p, c)] else [])
      in if g then more @ stop else stop @ more)"
| "rmatch fl t (Group n a) p c = map (\<lambda>(q, d). (q, d(n \<mapsto> take (q - p) (drop p t)))) (rmatch fl t a p c)"
| "rmatch fl t (Backref n) p c =
     (case c n of None \<Rightarrow> []
      | Some s \<Rightarrow> if str_eq fl (take (length s) (drop p t)) s then [(p + length s, c)] else [])"
| "rmatch fl t WordB p c = (if word_boundary t p then [(p, c)] else [])"
| "rmatch fl t Eos p c = (if at_end t p then [(p, c)] else [])"
  by pat_completeness auto
termination
  by (relation "measures [\<lambda>(fl, t, r, p, c). rsize r, \<lambda>(fl, t, r, p, c). length t - p]") auto

declare rmatch.simps [simp del]

text \<open>
  \<open>search\<close> is the leftmost match at or after a position. After an empty match \<open>re.sub\<close>
  searches again from the same position for a match that is not empty there (\<open>adv\<close>).
\<close>

function search :: "flags \<Rightarrow> regex \<Rightarrow> string \<Rightarrow> nat \<Rightarrow> bool \<Rightarrow> (nat \<times> nat \<times> caps) option" where
  "search fl r t s adv =
     (if length t < s then None
      else (case filter (\<lambda>(e, c). \<not> adv \<or> s < e) (rmatch fl t r s Map.empty) of
              (e, c) # _ \<Rightarrow> Some (s, e, c)
            | [] \<Rightarrow> search fl r t (Suc s) False))"
  by pat_completeness auto
termination
  by (relation "measure (\<lambda>(fl, r, t, s, adv). Suc (length t) - s)") auto

declare search.simps [simp del]

lemma rmatch_bounds:
  "(q, d) \<in> set (rmatch fl t r p c) \<Longrightarrow> p \<le> length t \<Longrightarrow> p \<le> q \<and> q \<le> length t"
proof (induction fl t r p c arbitrary: q d rule: rmatch.induct)
  case (1 fl t x p c)
  then show ?case by (auto simp: rmatch.simps split: if_splits)
next
  case (2 fl t k p c)
  then show ?case by (auto simp: rmatch.simps split: if_splits)
next
  case (3 fl t p c)
  then show ?case by (auto simp: rmatch.simps)
next
  case (4 fl t a b p c)
  from 4(3) obtain q1 d1 where a: "(q1, d1) \<in> set (rmatch fl t a p c)"
    and b: "(q, d) \<in> set (rmatch fl t b q1 d1)"
    by (auto simp: rmatch.simps)
  from 4(1)[OF a 4(4)] have 1: "p \<le> q1" "q1 \<le> length t" by auto
  from 4(2)[OF a refl b 1(2)] 1 show ?case by auto
next
  case (5 fl t a b p c)
  then show ?case by (auto simp: rmatch.simps)
next
  case (6 fl t a mn mx g p c)
  have "(q, d) \<in> set (rmatch fl t (Rep a mn mx g) p c)" by fact
  then consider (stop) "q = p" "d = c"
    | (more) q1 d1 where "mx \<noteq> Some 0" "(q1, d1) \<in> set (rmatch fl t a p c)" "p < q1" "q1 \<le> length t"
        "(q, d) \<in> set (rmatch fl t (Rep a (mn - 1) (map_option (\<lambda>k. k - 1) mx) g) q1 d1)"
    by (subst (asm) rmatch.simps) (auto simp: Let_def split: if_splits)
  then show ?case
  proof cases
    case stop
    with 6(4) show ?thesis by simp
  next
    case more
    have "q1 \<le> q \<and> q \<le> length t"
      by (rule 6(2)[OF more(1) more(2) refl _ more(5) more(4)]) (use more in auto)
    with more(3) show ?thesis by auto
  qed
next
  case (7 fl t n a p c)
  then show ?case by (auto simp: rmatch.simps)
next
  case (8 fl t n p c)
  then show ?case
    by (auto simp: rmatch.simps str_eq_def split: option.splits if_splits dest!: arg_cong[where f=length])
next
  case (9 fl t p c)
  then show ?case by (auto simp: rmatch.simps split: if_splits)
next
  case (10 fl t p c)
  then show ?case by (auto simp: rmatch.simps split: if_splits)
qed

lemma search_bounds:
  "search fl r t i adv = Some (s, e, c) \<Longrightarrow>
     i \<le> s \<and> s \<le> length t \<and> s \<le> e \<and> e \<le> length t \<and> (adv \<and> s = i \<longrightarrow> s < e)"
proof (induction fl r t i adv rule: search.induct)
  case (1 fl r t s' adv)
  have le: "s' \<le> length t"
    using 1(2) by (subst (asm) search.simps) (simp split: if_splits)
  show ?case
  proof (cases "filter (\<lambda>(e, c). \<not> adv \<or> s' < e) (rmatch fl t r s' Map.empty)")
    case Nil
    with le 1(2) have "search fl r t (Suc s') False = Some (s, e, c)"
      by (subst (asm) search.simps) simp
    from 1(1)[OF _ Nil this] le show ?thesis by auto
  next
    case (Cons x xs)
    obtain e' c' where x: "x = (e', c')" by (cases x)
    from Cons x le 1(2) have eq: "s = s'" "e = e'" "c = c'"
      by (subst (asm) search.simps, simp)+
    have "(e', c') \<in> set (filter (\<lambda>(e, c). \<not> adv \<or> s' < e) (rmatch fl t r s' Map.empty))"
      using Cons x by simp
    then have mem: "(e', c') \<in> set (rmatch fl t r s' Map.empty)" and adv: "\<not> adv \<or> s' < e'"
      by auto
    from rmatch_bounds[OF mem le] have "s' \<le> e' \<and> e' \<le> length t" .
    with eq adv le show ?thesis by auto
  qed
qed

text \<open>
  A replacement template is a list of literal pieces and group references (\<open>\1\<close>).
  \<open>sub_from\<close> is the loop of \<open>re.sub\<close>: the text up to the next match is copied, the
  match is replaced by the expanded template, and the loop goes on after the match.
\<close>

datatype titem = TLit string | TGroup nat

fun expand :: "titem list \<Rightarrow> caps \<Rightarrow> string" where
  "expand [] c = []"
| "expand (TLit s # tp) c = s @ expand tp c"
| "expand (TGroup n # tp) c = (case c n of None \<Rightarrow> [] | Some s \<Rightarrow> s) @ expand tp c"

function sub_from :: "flags \<Rightarrow> regex \<Rightarrow> titem list \<Rightarrow> string \<Rightarrow> nat \<Rightarrow> bool \<Rightarrow> string" where
  "sub_from fl r tp t i adv =
     (case search fl r t i adv of
        None \<Rightarrow> drop i t
      | Some (s, e, c) \<Rightarrow> take (s - i) (drop i t) @ expand tp c @ sub_from fl r tp t e (e = s))"
  by pat_completeness auto
termination
proof (relation "measure (\<lambda>(fl, r, tp, t, i, adv). 2 * (Suc (length t) - i) + (if adv then 0 else 1))", goal_cases)
  case 1
  then show ?case by simp
next
  case (2 fl r tp t i adv x2 s y e c)
  then have "search fl r t i adv = Some (s, e, c)" by simp
  from search_bounds[OF this] show ?case by auto
qed

declare sub_from.simps [simp del]

definition re_sub :: "flags \<Rightarrow> regex \<Rightarrow> titem list \<Rightarrow> string \<Rightarrow> string" where
  "re_sub fl r tp t = sub_from fl r tp t 0 False"

text \<open>Shorthands that follow the pattern syntax.\<close>

fun seqs :: "regex list \<Rightarrow> regex" where
  "seqs [] = Eps"
| "seqs [r] = r"
| "seqs (r # rs) = Seq r (seqs rs)"

definition lits :: "string \<Rightarrow> regex" where
  "lits s = seqs (map Chr s)"

definition lazy_any :: regex where
  "lazy_any = Rep (Cls Dot) 0 None False"

definition opt :: "regex \<Rightarrow> regex" where
  "opt r = Rep r 0 (Some 1) True"

definition star :: "regex \<Rightarrow> regex" where
  "star r = Rep r 0 None True"

definition plus :: "regex \<Rightarrow> regex" where
  "plus r = Rep r 1 None True"

definition at_least :: "nat \<Rightarrow> regex \<Rightarrow> regex" where
  "at_least n r = Rep r n None True"

definition between :: "nat \<Rightarrow> nat \<Rightarrow> regex \<Rightarrow> regex" where
  "between m n r = Rep r m (Some n) True"

definition flags_I_S :: flags where
  "flags_I_S = \<lparr>ignorecase = True, dotall = True\<rparr>"

definition flags_I :: flags where
  "flags_I = \<lparr>ignorecase = True, dotall = False\<rparr>"

definition flags_none :: flags where
  "flags_none = \<lparr>ignorecase = False, dotall = False\<rparr>"

section \<open>TranscriptionCleaner (\<open>services/text_processing.py\<close>)\<close>

datatype exn =
    HTTPException nat string
  | IndexError
  | ZeroDivisionError
  | FileNotFoundError string
  | OtherError string

text \<open>
  The six patterns of \<open>_subtitle_patterns\<close>. The first one holds the two characters
  U+00C3 and U+00A0 after \<open>comunit\<close>, as the source file does.
\<close>

definition subtitle_patterns :: "regex list" where
  "subtitle_patterns =
   [ seqs [lits (''sottotitoli creati dalla comunit'' @ [CHR 0xC3, CHR 0xA0] @ '' amara.org''),
           lazy_any, lits ''qtss'', opt (Chr CHR ''.'')],
     seqs [lits ''subtitles created by'', lazy_any, lits ''community'', lazy_any, lits ''amara.org'',
           lazy_any, lits ''qtss'', opt (Chr CHR ''.'')],
     seqs [lits ''sottotitoli e revisione a cura di'', lazy_any, lits ''qtss'', opt (Chr CHR ''.'')],
     seqs [lits ''subtitles and revision by'', lazy_any, lits ''qtss'', opt (Chr CHR ''.'')],
     seqs [lits ''traduzione e adattamento'', lazy_any, lits ''qtss'', opt (Chr CHR ''.'')],
     seqs [lits ''translation and adaptation'', lazy_any, lits ''qtss'', opt (Chr CHR ''.'')] ]"

definition remove_subtitle_credits :: "string \<Rightarrow> string" where
  "remove_subtitle_credits text = fold (\<lambda>pattern text. re_sub flags_I_S pattern [] text) subtitle_patterns text"

text \<open>
  \<^verbatim>\<open>\b(\w{1,3})(?:\s+\1){10,}\b\<close>, \<^verbatim>\<open>\b(\w)\s+(?:\1\s+){5,}\<close> and
  \<^verbatim>\<open>\b(\w{1,4})(?:\s+\1){8,}(?:\s|$)\<close>.
\<close>

definition short_word_pattern :: regex where
  "short_word_pattern =
     seqs [WordB, Group 1 (between 1 3 (Cls Word)), at_least 10 (Seq (plus (Cls Space)) (Backref 1)), WordB]"

definition single_char_pattern :: regex where
  "single_char_pattern =
     seqs [WordB, Group 1 (Cls Word), plus (Cls Space), at_least 5 (Seq (Backref 1) (plus (Cls Space)))]"

definition long_run_pattern :: regex where
  "long_run_pattern =
     seqs [WordB, Group 1 (between 1 4 (Cls Word)), at_least 8 (Seq (plus (Cls Space)) (Backref 1)),
           Alt (Cls Space) Eos]"

definition remove_repetitive_patterns :: "string \<Rightarrow> string" where
  "remove_repetitive_patterns text =
     (let text = re_sub flags_I short_word_pattern [TGroup 1] text;
          text = re_sub flags_none single_char_pattern [TGroup 1, TLit '' ''] text;
          text = re_sub flags_none long_run_pattern [TLit '' ''] text
      in text)"

text \<open>\<^verbatim>\<open>\s+([a-zA-Z])(?:\s+\1){2,}\s*$\<close>\<close>

definition trailing_letter_pattern :: regex where
  "trailing_letter_pattern =
     seqs [plus (Cls Space), Group 1 (Cls AsciiLetter), at_least 2 (Seq (plus (Cls Space)) (Backref 1)),
           star (Cls Space), Eos]"

text \<open>
  \<open>words[-1]\<close> raises \<open>IndexError\<close> on an empty list. The loop counts the occurrences of
  the last word at the end of \<open>words\<close>; \<open>words[:-repetition_count + 1]\<close> is a slice with
  the stop \<open>1 - repetition_count\<close>, counted from the end when it is negative.
\<close>

definition py_slice_to :: "'a list \<Rightarrow> int \<Rightarrow> 'a list" where
  "py_slice_to xs stop =
     (if stop < 0 then take (nat (int (length xs) + stop)) xs else take (nat stop) xs)"

definition remove_trailing_repetitions :: "string \<Rightarrow> exn + string" where
  "remove_trailing_repetitions text =
     (let words = py_split (py_strip text) in
      if length words \<le> 4 then Inr text
      else if words = [] then Inl IndexError
      else
        let last_word = last words;
            repetition_count = length (takeWhile (\<lambda>w. w = last_word) (rev words));
            text = (if repetition_count > 5
                    then py_join '' '' (py_slice_to words (- int repetition_count + 1))
                    else text)
        in Inr (re_sub flags_none trailing_letter_pattern [] text))"

definition cleanup_spaces :: "string \<Rightarrow> string" where
  "cleanup_spaces text = re_sub flags_none (plus (Cls Space)) [TLit '' ''] text"

text \<open>
  \<open>clean_text\<close> takes a string or \<open>None\<close>. It returns the cleaned text and the reduction
  it logs, if it logs one; the percentage in the log record divides by the original
  length.
\<close>

definition clean_text :: "string option \<Rightarrow> exn + (string option \<times> int option)" where
  "clean_text text =
     (case text of
        None \<Rightarrow> Inr (None, None)
      | Some t \<Rightarrow>
          if t = [] then Inr (Some t, None)
          else
            let original_length = length t;
                t = remove_subtitle_credits t;
                t = remove_repetitive_patterns t
            in (case remove_trailing_repetitions t of
                  Inl e \<Rightarrow> Inl e
                | Inr t \<Rightarrow>
                    let t = cleanup_spaces t;
                        cleaned_text = py_strip t
                    in if length cleaned_text < original_length
                       then (if original_length = 0 then Inl ZeroDivisionError
                             else Inr (Some cleaned_text, Some (int original_length - int (length cleaned_text))))
                       else Inr (Some cleaned_text, None)))"

section \<open>Configuration (\<open>core/config.py\<close>)\<close>

datatype QualityLevel = FAST | BALANCED | HIGH | BEST

datatype ModelSize = SMALL | MEDIUM | LARGE

fun model_size_value :: "ModelSize \<Rightarrow> string" where
  "model_size_value SMALL = ''small''"
| "model_size_value MEDIUM = ''medium''"
| "model_size_value LARGE = ''large-v3''"

record AppConfig =
  whisper_model :: string
  max_file_size :: nat
  supported_formats :: "string set"

definition default_config :: AppConfig where
  "default_config =
     \<lparr>whisper_model = ''small'',
      max_file_size = 100 * 1024 * 1024,
      supported_formats = {''.mp3'', ''.wav'', ''.m4a'', ''.flac'', ''.ogg'',
                           ''.wma'', ''.aac'', ''.mp4'', ''.mov'', ''.avi''}\<rparr>"

section \<open>The state of the process and the outside world\<close>

text \<open>
  A log record is the level and the message of the source; an f-string is kept as its
  template. The trace \<open>gpu\<close> lists, in the order of the calls, every
  \<open>torch.cuda.empty_cache()\<close> and every recognition call (with the path it reads).
  \<open>m_model\<close>, \<open>m_device\<close> and \<open>m_model_size\<close> are the attributes \<open>_model\<close>, \<open>_device\<close> and
  \<open>_model_size\<close> of the model manager; \<open>fs\<close> is the files on disk.
\<close>

datatype level = DEBUG | INFO | WARNING | ERROR

datatype gpu_event = EmptyCache | Recognize string

record 'm state =
  fs :: "string \<rightharpoonup> string"
  logs :: "(level \<times> string) list"
  gpu :: "gpu_event list"
  m_model :: "'m option"
  m_device :: string
  m_model_size :: "string option"

definition log :: "level \<Rightarrow> string \<Rightarrow> 'm state \<Rightarrow> 'm state" where
  "log lv msg s = s\<lparr>logs := logs s @ [(lv, msg)]\<rparr>"

text \<open>
  The libraries the program calls are parameters: \<open>Path(name).suffix\<close>, the name
  \<open>tempfile.NamedTemporaryFile\<close> chooses for a suffix on a disk, \<open>temp_file.write\<close>,
  \<open>os.unlink\<close>, \<open>whisper.load_model\<close> and the \<open>text\<close> of \<open>model.transcribe\<close>. Each one
  returns its value or the exception it raises.
\<close>

record 'm env =
  path_suffix :: "string \<Rightarrow> string"
  named_temporary_file :: "string \<Rightarrow> (string \<rightharpoonup> string) \<Rightarrow> exn + string"
  file_write :: "string \<Rightarrow> string \<Rightarrow> exn option"
  os_unlink :: "string \<Rightarrow> exn option"
  whisper_load_model :: "string \<Rightarrow> string \<Rightarrow> exn + 'm"
  model_transcribe :: "'m \<Rightarrow> string \<Rightarrow> (string \<rightharpoonup> string) \<Rightarrow> exn + string"

text \<open>An upload: its file name (empty when there is none) and what \<open>file.read()\<close> gives.\<close>

record UploadFile =
  filename :: string
  read :: "exn + string"

section \<open>FileValidator (\<open>validation/file_validator.py\<close>)\<close>

definition check_file_exists :: "UploadFile \<Rightarrow> exn + unit" where
  "check_file_exists file =
     (if filename file = [] then Inl (HTTPException 400 ''No file provided'') else Inr ())"

definition check_file_format :: "'m env \<Rightarrow> AppConfig \<Rightarrow> UploadFile \<Rightarrow> exn + unit" where
  "check_file_format env config file =
     (let file_extension = map lower (path_suffix env (filename file)) in
      if file_extension \<notin> supported_formats config
      then Inl (HTTPException 400 ''Unsupported file format '{file_extension}'. Supported formats: {supported_list}'')
      else Inr ())"

definition check_file_size :: "UploadFile \<Rightarrow> exn + unit" where
  "check_file_size file = Inr ()"

definition validate_file :: "'m env \<Rightarrow> AppConfig \<Rightarrow> UploadFile \<Rightarrow> exn + unit" where
  "validate_file env config file =
     (case check_file_exists file of
        Inl e \<Rightarrow> Inl e
      | Inr _ \<Rightarrow>
          (case check_file_format env config file of
             Inl e \<Rightarrow> Inl e
           | Inr _ \<Rightarrow> check_file_size file))"

section \<open>WhisperModelManager (\<open>models/whisper_manager.py\<close>)\<close>

definition manager_log_gpu_memory :: "'m state \<Rightarrow> 'm state" where
  "manager_log_gpu_memory s =
     (if m_device s = ''cuda''
      then log INFO ''GPU memory usage {context}: {memory_allocated:.2f}GB allocated, {memory_reserved:.2f}GB reserved'' s
      else s)"

fun quality_models :: "QualityLevel \<Rightarrow> string" where
  "quality_models FAST = ''tiny''"
| "quality_models BALANCED = ''base''"
| "quality_models HIGH = ''small''"
| "quality_models BEST = ''medium''"

definition load_quality_model ::
  "'m env \<Rightarrow> QualityLevel \<Rightarrow> ModelSize option \<Rightarrow> 'm state \<Rightarrow> 'm option \<times> 'm state" where
  "load_quality_model env quality model_size s =
     (let selected_model = (case model_size of
                              Some ms \<Rightarrow> model_size_value ms
                            | None \<Rightarrow> quality_models quality)
      in if Some selected_model \<noteq> m_model_size s
         then
           let s = log INFO ''Loading {selected_model} model for {quality.value} quality'' s in
           (case whisper_load_model env selected_model (m_device s) of
              Inr loaded \<Rightarrow> (Some loaded, s)
            | Inl e \<Rightarrow>
                let s = log WARNING ''Failed to load {selected_model} model, using default: {e}'' s
                in (m_model s, s))
         else (m_model s, s))"

definition load_model_by_size :: "'m env \<Rightarrow> ModelSize \<Rightarrow> 'm state \<Rightarrow> 'm option \<times> 'm state" where
  "load_model_by_size env model_size s =
     (let model_name = model_size_value model_size
      in if Some model_name \<noteq> m_model_size s
         then
           let s = log INFO ''Loading {model_name} model'' s in
           (case whisper_load_model env model_name (m_device s) of
              Inr loaded \<Rightarrow>
                let s = s\<lparr>m_model := Some loaded\<rparr>;
                    s = s\<lparr>m_model_size := Some model_name\<rparr>;
                    s = (if m_device s = ''cuda'' then manager_log_gpu_memory s else s);
                    s = log INFO ''Whisper model '{model_name}' loaded successfully'' s
                in (m_model s, s)
            | Inl e \<Rightarrow>
                let s = log ERROR ''Failed to load {model_name} model: {e}'' s;
                    s = log INFO ''Falling back to current model'' s
                in (m_model s, s))
         else (m_model s, s))"

definition cleanup_gpu_memory :: "'m state \<Rightarrow> 'm state" where
  "cleanup_gpu_memory s =
     (if m_device s = ''cuda''
      then manager_log_gpu_memory (s\<lparr>gpu := gpu s @ [EmptyCache]\<rparr>)
      else s)"

section \<open>TranscriptionService (\<open>services/transcription.py\<close>)\<close>

text \<open>
  The body of the \<open>try\<close> of \<open>_create_temp_file\<close>: the temporary file is created on disk
  (\<open>delete=False\<close>), the upload is read, its size is checked and it is written.
\<close>

definition create_temp_file_try ::
  "'m env \<Rightarrow> AppConfig \<Rightarrow> UploadFile \<Rightarrow> 'm state \<Rightarrow> (exn + string) \<times> 'm state" where
  "create_temp_file_try env config file s =
     (let file_extension = map lower (path_suffix env (filename file)) in
      case named_temporary_file env file_extension (fs s) of
        Inl e \<Rightarrow> (Inl e, s)
      | Inr name \<Rightarrow>
          let s = s\<lparr>fs := (fs s)(name \<mapsto> [])\<rparr> in
          (case read file of
             Inl e \<Rightarrow> (Inl e, s)
           | Inr content \<Rightarrow>
               if length content > max_file_size config
               then (Inl (HTTPException 400 ''File too large. Maximum size: {self.config.max_file_size / 1024 / 1024:.1f}MB''), s)
               else (case file_write env name content of
                       Some e \<Rightarrow> (Inl e, s)
                     | None \<Rightarrow> (Inr name, s\<lparr>fs := (fs s)(name \<mapsto> content)\<rparr>))))"

text \<open>\<open>except Exception as e\<close> catches every exception of the body, \<open>HTTPException\<close> too.\<close>

definition create_temp_file ::
  "'m env \<Rightarrow> AppConfig \<Rightarrow> UploadFile \<Rightarrow> 'm state \<Rightarrow> (exn + string) \<times> 'm state" where
  "create_temp_file env config file s =
     (case create_temp_file_try env config file s of
        (Inr name, s) \<Rightarrow> (Inr name, s)
      | (Inl e, s) \<Rightarrow>
          (Inl (HTTPException 500 ''Failed to process uploaded file''),
           log ERROR ''Failed to create temporary file: {e}'' s))"

definition service_log_gpu_memory :: "'m state \<Rightarrow> 'm state" where
  "service_log_gpu_memory s =
     (if m_device s = ''cuda'' then log INFO ''GPU memory {context}: {memory_used:.2f}GB'' s else s)"

text \<open>
  \<open>model.transcribe\<close> on \<open>None\<close> raises an \<open>AttributeError\<close>, which the last handler
  catches like any other exception. \<open>exn_str\<close> is \<open>str(e)\<close> for the exceptions a
  library raises.
\<close>

fun exn_str :: "exn \<Rightarrow> string" where
  "exn_str (FileNotFoundError msg) = msg"
| "exn_str (OtherError msg) = msg"
| "exn_str (HTTPException status_code detail) = detail"
| "exn_str IndexError = ''list index out of range''"
| "exn_str ZeroDivisionError = ''division by zero''"

definition call_transcribe ::
  "'m env \<Rightarrow> 'm option \<Rightarrow> string \<Rightarrow> 'm state \<Rightarrow> (exn + string) \<times> 'm state" where
  "call_transcribe env model file_path s =
     (let s = s\<lparr>gpu := gpu s @ [Recognize file_path]\<rparr> in
      case model of
        None \<Rightarrow> (Inl (OtherError ''NoneType object has no attribute transcribe''), s)
      | Some m \<Rightarrow> (model_transcribe env m file_path (fs s), s))"

definition perform_transcription ::
  "'m env \<Rightarrow> string \<Rightarrow> 'm option \<Rightarrow> QualityLevel \<Rightarrow> 'm state \<Rightarrow> (exn + string) \<times> 'm state" where
  "perform_transcription env file_path model quality s =
     (let s = log INFO ''Starting transcription with {quality.value} quality...'' s;
          s = (if m_device s = ''cuda''
               then service_log_gpu_memory (cleanup_gpu_memory s)
               else s)
      in case call_transcribe env model file_path s of
           (Inr transcription, s) \<Rightarrow>
             let s = (if m_device s = ''cuda''
                      then cleanup_gpu_memory (service_log_gpu_memory s)
                      else s)
             in (Inr transcription, s)
         | (Inl (FileNotFoundError msg), s) \<Rightarrow>
             (Inl (HTTPException 500 ''FFmpeg is required but not found. Please install FFmpeg and ensure it's in your PATH. See documentation for setup instructions.''),
              log ERROR ''FFmpeg not found: {e}'' s)
         | (Inl e, s) \<Rightarrow>
             let s = log ERROR ''Transcription error: {str(e)}'' s in
             if contains (map lower (exn_str e)) ''ffmpeg''
             then (Inl (HTTPException 500 ''FFmpeg error occurred. Please ensure FFmpeg is properly installed. See documentation for troubleshooting.''), s)
             else (Inl (HTTPException 500 ''Transcription failed: {str(e)}''), s))"

text \<open>
  The body of the \<open>try\<close> of \<open>_cleanup_temp_file\<close>, and the function with its handler.
  The result is the exception that leaves the function, if any.
\<close>

definition cleanup_temp_file_try :: "'m env \<Rightarrow> string \<Rightarrow> 'm state \<Rightarrow> exn option \<times> 'm state" where
  "cleanup_temp_file_try env file_path s =
     (if file_path \<in> dom (fs s)
      then (case os_unlink env file_path of
              Some e \<Rightarrow> (Some e, s)
            | None \<Rightarrow> (None, log DEBUG ''Cleaned up temporary file: {file_path}''
                                 (s\<lparr>fs := (fs s)(file_path := None)\<rparr>)))
      else (None, s))"

definition cleanup_temp_file :: "'m env \<Rightarrow> string \<Rightarrow> 'm state \<Rightarrow> exn option \<times> 'm state" where
  "cleanup_temp_file env file_path s =
     (case cleanup_temp_file_try env file_path s of
        (None, s) \<Rightarrow> (None, s)
      | (Some e, s) \<Rightarrow> (None, log WARNING ''Failed to cleanup temp file {file_path}: {e}'' s))"

text \<open>The body of the \<open>try\<close> of \<open>transcribe_file\<close>.\<close>

definition transcribe_file_try ::
  "'m env \<Rightarrow> UploadFile \<Rightarrow> QualityLevel \<Rightarrow> ModelSize option \<Rightarrow> string \<Rightarrow> 'm state
     \<Rightarrow> (exn + string option) \<times> 'm state" where
  "transcribe_file_try env file quality model_size temp_file_path s =
     (let (current_model, s) = (case model_size of
                                  Some ms \<Rightarrow> load_model_by_size env ms s
                                | None \<Rightarrow> load_quality_model env quality None s)
      in case perform_transcription env temp_file_path current_model quality s of
           (Inl e, s) \<Rightarrow> (Inl e, s)
         | (Inr transcription, s) \<Rightarrow>
             (case clean_text (Some transcription) of
                Inl e \<Rightarrow> (Inl e, s)
              | Inr (cleaned_transcription, reduction) \<Rightarrow>
                  let s = (case reduction of
                             None \<Rightarrow> s
                           | Some r \<Rightarrow> log INFO ''Text cleaning: removed {reduction} characters ({reduction/original_length*100:.1f}%)'' s);
                      s = log INFO ''Transcription completed for {file.filename}'' s
                  in (Inr cleaned_transcription, s)))"

text \<open>
  \<open>transcribe_file\<close>: validation, staging, then the \<open>try\<close> with its \<open>finally\<close>. An
  exception that leaves the \<open>finally\<close> block replaces the outcome of the \<open>try\<close>.
\<close>

definition transcribe_file ::
  "'m env \<Rightarrow> AppConfig \<Rightarrow> UploadFile \<Rightarrow> QualityLevel \<Rightarrow> ModelSize option \<Rightarrow> 'm state
     \<Rightarrow> (exn + string option) \<times> 'm state" where
  "transcribe_file env config file quality model_size s =
     (case validate_file env config file of
        Inl e \<Rightarrow> (Inl e, s)
      | Inr _ \<Rightarrow>
          let s = log INFO ''Processing file: {file.filename} with {quality.value} quality, model: {model_info}'' s in
          (case create_temp_file env config file s of
             (Inl e, s) \<Rightarrow> (Inl e, s)
           | (Inr temp_file_path, s) \<Rightarrow>
               let (outcome, s) = transcribe_file_try env file quality model_size temp_file_path s;
                   (raised, s) = cleanup_temp_file env temp_file_path s
               in (case raised of
                     Some e \<Rightarrow> (Inl e, s)
                   | None \<Rightarrow> (outcome, s))))"

section \<open>Concrete inputs\<close>

text \<open>
  An environment in which every library call succeeds, one in which loading a model,
  the recognition call and \<open>os.unlink\<close> fail, a manager state on the accelerator
  with the default model loaded, an upload one byte over the default limit and a
  small upload.
\<close>

definition example_env :: "string env" where
  "example_env =
     \<lparr>path_suffix = dropWhile (\<lambda>c. c \<noteq> CHR ''.''),
      named_temporary_file = (\<lambda>suffix disk. Inr (''/tmp/tmpk3v9'' @ suffix)),
      file_write = (\<lambda>name content. None),
      os_unlink = (\<lambda>path. None),
      whisper_load_model = (\<lambda>name device. Inr name),
      model_transcribe = (\<lambda>m path disk. Inr ''hello  world'')\<rparr>"

definition failing_env :: "string env" where
  "failing_env = example_env\<lparr>whisper_load_model := (\<lambda>name device. Inl (OtherError ''out of memory'')),
                              model_transcribe := (\<lambda>m path disk. Inl (OtherError ''decoder failed'')),
                              os_unlink := (\<lambda>path. Some (OtherError ''permission denied''))\<rparr>"

definition example_state :: "string state" where
  "example_state =
     \<lparr>fs = Map.empty, logs = [], gpu = [], m_model = Some ''small'',
      m_device = ''cuda'', m_model_size = Some ''small''\<rparr>"

definition big_content :: string where
  "big_content = replicate (100 * 1024 * 1024 + 1) CHR ''a''"

definition big_upload :: UploadFile where
  "big_upload = \<lparr>filename = ''song.MP3'', read = Inr big_content\<rparr>"

definition small_upload :: UploadFile where
  "small_upload = \<lparr>filename = ''song.MP3'', read = Inr ''RIFF''\<rparr>"

section \<open>Facts about the service\<close>

lemma length_big_content: "length big_content = 100 * 1024 * 1024 + 1"
  by (simp only: big_content_def length_replicate)

lemma big_upload_extension:
  "map lower (path_suffix example_env (filename big_upload)) = ''.mp3''"
  unfolding big_upload_def UploadFile.simps by code_simp

lemma create_temp_file_too_large:
  assumes "named_temporary_file env (map lower (path_suffix env (filename file))) (fs s) = Inr name"
    and "read file = Inr content"
    and "length content > max_file_size config"
  shows "create_temp_file env config file s =
           (Inl (HTTPException 500 ''Failed to process uploaded file''),
            log ERROR ''Failed to create temporary file: {e}'' (s\<lparr>fs := (fs s)(name \<mapsto> [])\<rparr>))"
  using assms by (simp add: create_temp_file_def create_temp_file_try_def Let_def)

lemma gpu_log [simp]: "gpu (log lv msg s) = gpu s"
  by (simp add: log_def)

lemma m_device_log [simp]: "m_device (log lv msg s) = m_device s"
  by (simp add: log_def)

lemma call_transcribe_state:
  "snd (call_transcribe env model file_path s) = s\<lparr>gpu := gpu s @ [Recognize file_path]\<rparr>"
  by (simp add: call_transcribe_def Let_def split: option.splits)

lemma fs_log [simp]: "fs (log lv msg s) = fs s"
  by (simp add: log_def)

lemma fs_load_model_by_size [simp]: "fs (snd (load_model_by_size env sz s)) = fs s"
  by (simp add: load_model_by_size_def manager_log_gpu_memory_def Let_def split: sum.splits)

lemma fs_load_quality_model [simp]: "fs (snd (load_quality_model env q ms s)) = fs s"
  by (simp add: load_quality_model_def Let_def split: sum.splits)

lemma fs_cleanup_gpu_memory [simp]: "fs (cleanup_gpu_memory s) = fs s"
  by (simp add: cleanup_gpu_memory_def manager_log_gpu_memory_def)

lemma fs_service_log_gpu_memory [simp]: "fs (service_log_gpu_memory s) = fs s"
  by (simp add: service_log_gpu_memory_def)

lemma fs_perform_transcription [simp]:
  "fs (snd (perform_transcription env file_path model quality s)) = fs s"
proof -
  let ?s1 = "if m_device (log INFO ''Starting transcription with {quality.value} quality...'' s) = ''cuda''
             then service_log_gpu_memory (cleanup_gpu_memory (log INFO ''Starting transcription with {quality.value} quality...'' s))
             else log INFO ''Starting transcription with {quality.value} quality...'' s"
  obtain r s2 where c: "call_transcribe env model file_path ?s1 = (r, s2)"
    by (cases "call_transcribe env model file_path ?s1")
  with call_transcribe_state[of env model file_path ?s1]
  have s2: "fs s2 = fs s" by auto
  show ?thesis
  proof (cases r)
    case (Inr transcription)
    with c s2 show ?thesis
      by (simp add: perform_transcription_def Let_def)
  next
    case (Inl e)
    with c s2 show ?thesis
      by (cases e) (simp_all add: perform_transcription_def Let_def)
  qed
qed

lemma fs_transcribe_file_try [simp]:
  "fs (snd (transcribe_file_try env file quality model_size temp_file_path s)) = fs s"
proof -
  obtain m s1 where l: "(case model_size of Some ms \<Rightarrow> load_model_by_size env ms s
                         | None \<Rightarrow> load_quality_model env quality None s) = (m, s1)"
    by (cases "case model_size of Some ms \<Rightarrow> load_model_by_size env ms s
               | None \<Rightarrow> load_quality_model env quality None s")
  have s1: "fs s1 = fs s"
  proof (cases model_size)
    case None
    with l have "s1 = snd (load_quality_model env quality None s)" by simp
    then show ?thesis by simp
  next
    case (Some ms)
    with l have "s1 = snd (load_model_by_size env ms s)" by simp
    then show ?thesis by simp
  qed
  obtain r s2 where p: "perform_transcription env temp_file_path m quality s1 = (r, s2)"
    by (cases "perform_transcription env temp_file_path m quality s1")
  with fs_perform_transcription[of env temp_file_path m quality s1] s1 have s2: "fs s2 = fs s"
    by simp
  show ?thesis
    unfolding transcribe_file_try_def l
    by (simp add: p s2 Let_def split: sum.splits prod.splits option.splits)
qed

lemma create_temp_file_staged:
  "create_temp_file env config file s = (Inr name, s1) \<Longrightarrow> name \<in> dom (fs s1)"
  by (auto simp: create_temp_file_def create_temp_file_try_def Let_def
      split: sum.splits prod.splits if_splits option.splits)

section \<open>Claims about the service\<close>

text \<open>
  C1. An upload longer than \<open>max_file_size\<close> should fail with the "File too large"
  exception (status 400) and leave no temporary file. Evaluated on an upload of
  \<open>max_file_size + 1\<close> bytes with a supported extension: the exception raised for the
  size is caught by the handler of \<open>_create_temp_file\<close>, the caller receives status
  500 "Failed to process uploaded file", and the temporary file, created with
  \<open>delete=False\<close>, is still on disk (empty) when \<open>transcribe_file\<close> has returned.
\<close>

theorem C1_oversized_payload:
  "fst (transcribe_file example_env default_config big_upload BALANCED None example_state)
     = Inl (HTTPException 500 ''Failed to process uploaded file'')
   \<and> fs (snd (transcribe_file example_env default_config big_upload BALANCED None example_state))
        ''/tmp/tmpk3v9.mp3'' = Some []"
proof -
  let ?s = "log INFO ''Processing file: {file.filename} with {quality.value} quality, model: {model_info}'' example_state"
  have v: "validate_file example_env default_config big_upload = Inr ()"
    by (simp add: validate_file_def check_file_exists_def check_file_format_def check_file_size_def
        big_upload_extension default_config_def)
       (simp add: big_upload_def)
  have n: "named_temporary_file example_env (map lower (path_suffix example_env (filename big_upload))) (fs ?s)
             = Inr ''/tmp/tmpk3v9.mp3''"
    by (simp add: big_upload_extension) (simp add: example_env_def)
  have r: "read big_upload = Inr big_content"
    by (simp add: big_upload_def)
  have l: "length big_content > max_file_size default_config"
    unfolding length_big_content by (simp add: default_config_def)
  note c = create_temp_file_too_large[OF n r l]
  show ?thesis
    by (simp add: transcribe_file_def v c Let_def)
qed

text \<open>
  C2, as stated, at \<open>load_quality_model\<close>: the resolved size \<open>medium\<close> differs from
  the recorded size \<open>small\<close> and the load succeeds, yet the manager's handle and
  recorded size are still those of \<open>small\<close>; the new handle is only returned.
\<close>

theorem C2_quality_load_not_current:
  "Some (quality_models BEST) \<noteq> m_model_size example_state
   \<and> whisper_load_model example_env (quality_models BEST) (m_device example_state) = Inr ''medium''
   \<and> fst (load_quality_model example_env BEST None example_state) = Some ''medium''
   \<and> m_model (snd (load_quality_model example_env BEST None example_state)) = Some ''small''
   \<and> m_model_size (snd (load_quality_model example_env BEST None example_state)) = Some ''small''"
  by (simp add: load_quality_model_def example_env_def example_state_def log_def Let_def)

text \<open>
  C2, amended. \<open>load_model_by_size\<close>: when the resolved size differs from the recorded
  one and the load succeeds, the loaded model is returned and becomes the manager's
  handle, with its size recorded; when the load fails, the previous handle is returned
  and handle and recorded size stay. \<open>load_quality_model\<close> never changes the manager's
  handle or recorded size: when the size differs and the load succeeds it returns the
  loaded model, when the load fails it returns the manager's handle. The manager has
  one handle, the field \<open>m_model\<close>.
\<close>

theorem C2_model_resolution:
  "(Some (model_size_value sz) \<noteq> m_model_size s
      \<and> whisper_load_model env (model_size_value sz) (m_device s) = Inr loaded
    \<longrightarrow> fst (load_model_by_size env sz s) = Some loaded
        \<and> m_model (snd (load_model_by_size env sz s)) = Some loaded
        \<and> m_model_size (snd (load_model_by_size env sz s)) = Some (model_size_value sz))
   \<and> (whisper_load_model env (model_size_value sz) (m_device s) = Inl e
    \<longrightarrow> fst (load_model_by_size env sz s) = m_model s
        \<and> m_model (snd (load_model_by_size env sz s)) = m_model s
        \<and> m_model_size (snd (load_model_by_size env sz s)) = m_model_size s)
   \<and> m_model (snd (load_quality_model env q ms s)) = m_model s
   \<and> m_model_size (snd (load_quality_model env q ms s)) = m_model_size s
   \<and> (Some name \<noteq> m_model_size s
      \<and> name = (case ms of Some z \<Rightarrow> model_size_value z | None \<Rightarrow> quality_models q)
      \<and> whisper_load_model env name (m_device s) = Inr loaded
    \<longrightarrow> fst (load_quality_model env q ms s) = Some loaded)
   \<and> (whisper_load_model env (case ms of Some z \<Rightarrow> model_size_value z | None \<Rightarrow> quality_models q) (m_device s) = Inl e
    \<longrightarrow> fst (load_quality_model env q ms s) = m_model s)"
  by (auto simp: load_model_by_size_def load_quality_model_def log_def manager_log_gpu_memory_def Let_def
      split: sum.splits option.splits)

theorem C2_model_resolution_witness:
  "fst (load_model_by_size example_env MEDIUM example_state) = Some ''medium''
   \<and> m_model (snd (load_model_by_size example_env MEDIUM example_state)) = Some ''medium''
   \<and> m_model_size (snd (load_model_by_size example_env MEDIUM example_state)) = Some ''medium''
   \<and> m_model (snd (load_quality_model example_env BEST None example_state)) = Some ''small''
   \<and> fst (load_quality_model example_env BEST None example_state) = Some ''medium''"
proof -
  have 1: "Some (model_size_value MEDIUM) \<noteq> m_model_size example_state"
    by (simp add: example_state_def)
  have 2: "whisper_load_model example_env (model_size_value MEDIUM) (m_device example_state) = Inr ''medium''"
    by (simp add: example_env_def)
  have 3: "Some ''medium'' \<noteq> m_model_size example_state"
    by (simp add: example_state_def)
  have 4: "whisper_load_model example_env ''medium'' (m_device example_state) = Inr ''medium''"
    by (simp add: example_env_def)
  from C2_model_resolution[of MEDIUM example_state example_env "''medium''" _ BEST None "''medium''"] 1 2 3 4
  show ?thesis
    by (simp add: example_state_def)
qed

text \<open>
  C3, as stated, on a failing recognition call on the accelerator: the cache is
  cleared once, before the call, and not after it.
\<close>

theorem C3_no_clear_after_failure:
  "m_device example_state = ''cuda''
   \<and> fst (perform_transcription failing_env ''/tmp/tmpk3v9.mp3'' (Some ''small'') BALANCED example_state)
       = Inl (HTTPException 500 ''Transcription failed: {str(e)}'')
   \<and> gpu (snd (perform_transcription failing_env ''/tmp/tmpk3v9.mp3'' (Some ''small'') BALANCED example_state))
       = [EmptyCache, Recognize ''/tmp/tmpk3v9.mp3'']"
proof -
  have "\<not> contains (map lower ''decoder failed'') ''ffmpeg''"
    by code_simp
  then show ?thesis
    by (simp add: perform_transcription_def call_transcribe_def cleanup_gpu_memory_def
        service_log_gpu_memory_def manager_log_gpu_memory_def log_def failing_env_def example_env_def
        example_state_def Let_def)
qed

text \<open>
  C3, amended. On the accelerator \<open>_perform_transcription\<close> clears the cache before the
  recognition call, and after it when the call succeeds; when the call fails the
  cache is not cleared again.
\<close>

theorem C3_cache_clear_bracket:
  "m_device s = ''cuda'' \<Longrightarrow>
   gpu (snd (perform_transcription env file_path model quality s)) =
     gpu s @ [EmptyCache, Recognize file_path] @
       (case fst (perform_transcription env file_path model quality s) of
          Inr transcription \<Rightarrow> [EmptyCache]
        | Inl e \<Rightarrow> [])"
proof -
  assume cuda: "m_device s = ''cuda''"
  let ?s1 = "service_log_gpu_memory (cleanup_gpu_memory (log INFO ''Starting transcription with {quality.value} quality...'' s))"
  obtain r s2 where c: "call_transcribe env model file_path ?s1 = (r, s2)"
    by (cases "call_transcribe env model file_path ?s1")
  with call_transcribe_state[of env model file_path ?s1]
  have s2: "s2 = ?s1\<lparr>gpu := gpu ?s1 @ [Recognize file_path]\<rparr>" by simp
  have g1: "gpu ?s1 = gpu s @ [EmptyCache]" and d1: "m_device ?s1 = ''cuda''"
    using cuda by (simp_all add: service_log_gpu_memory_def cleanup_gpu_memory_def manager_log_gpu_memory_def)
  show ?thesis
  proof (cases r)
    case (Inr transcription)
    with c s2 g1 d1 cuda show ?thesis
      by (simp add: perform_transcription_def Let_def service_log_gpu_memory_def cleanup_gpu_memory_def
          manager_log_gpu_memory_def)
  next
    case (Inl e)
    with c s2 g1 d1 cuda show ?thesis
      by (cases e) (simp_all add: perform_transcription_def Let_def)
  qed
qed

theorem C3_cache_clear_bracket_witness:
  "m_device example_state = ''cuda''
   \<and> gpu (snd (perform_transcription example_env ''/tmp/tmpk3v9.mp3'' (Some ''small'') BALANCED example_state))
       = [EmptyCache, Recognize ''/tmp/tmpk3v9.mp3'', EmptyCache]"
proof -
  have d: "m_device example_state = ''cuda''"
    by (simp add: example_state_def)
  have f: "fst (perform_transcription example_env ''/tmp/tmpk3v9.mp3'' (Some ''small'') BALANCED example_state)
             = Inr ''hello  world''"
    by (simp add: perform_transcription_def call_transcribe_def Let_def example_env_def split: prod.splits)
  from C3_cache_clear_bracket[OF d, of example_env "''/tmp/tmpk3v9.mp3''" "Some ''small''" BALANCED] d f
  show ?thesis
    by (simp add: example_state_def)
qed

text \<open>
  C4. When the upload passes validation and is staged, \<open>transcribe_file\<close> returns the
  outcome of its \<open>try\<close> block (the text or the primary error), whatever \<open>os.unlink\<close>
  does; when \<open>os.unlink\<close> succeeds the staged file is not on disk afterwards; when it
  fails a warning is logged and nothing is raised.
\<close>

theorem C4_staged_file_removed:
  assumes "validate_file env config file = Inr ()"
    and "create_temp_file env config file
           (log INFO ''Processing file: {file.filename} with {quality.value} quality, model: {model_info}'' s)
         = (Inr temp_file_path, s1)"
  shows "fst (transcribe_file env config file quality model_size s)
           = fst (transcribe_file_try env file quality model_size temp_file_path s1)
         \<and> (os_unlink env temp_file_path = None
              \<longrightarrow> temp_file_path \<notin> dom (fs (snd (transcribe_file env config file quality model_size s))))
         \<and> (os_unlink env temp_file_path \<noteq> None
              \<longrightarrow> (WARNING, ''Failed to cleanup temp file {file_path}: {e}'')
                    \<in> set (logs (snd (transcribe_file env config file quality model_size s)))
                  \<and> fs (snd (transcribe_file env config file quality model_size s)) = fs s1)"
proof -
  obtain outcome s2 where t: "transcribe_file_try env file quality model_size temp_file_path s1 = (outcome, s2)"
    by (cases "transcribe_file_try env file quality model_size temp_file_path s1")
  then have "fs s2 = fs (snd (transcribe_file_try env file quality model_size temp_file_path s1))"
    by simp
  then have "fs s2 = fs s1"
    by (simp only: fs_transcribe_file_try)
  with create_temp_file_staged[OF assms(2)] have staged: "temp_file_path \<in> dom (fs s2)" and fs2: "fs s2 = fs s1"
    by simp_all
  show ?thesis
  proof (cases "os_unlink env temp_file_path")
    case None
    with staged show ?thesis
      by (simp add: transcribe_file_def assms t cleanup_temp_file_def cleanup_temp_file_try_def Let_def)
  next
    case (Some e)
    with staged fs2 show ?thesis
      by (simp add: transcribe_file_def assms t cleanup_temp_file_def cleanup_temp_file_try_def Let_def)
         (simp add: log_def)
  qed
qed

theorem C4_staged_file_removed_witness:
  "validate_file example_env default_config small_upload = Inr ()
   \<and> os_unlink example_env ''/tmp/tmpk3v9.mp3'' = None
   \<and> ''/tmp/tmpk3v9.mp3'' \<notin> dom (fs (snd (transcribe_file example_env default_config small_upload BALANCED None example_state)))
   \<and> os_unlink failing_env ''/tmp/tmpk3v9.mp3'' = Some (OtherError ''permission denied'')
   \<and> fst (transcribe_file failing_env default_config small_upload BALANCED None example_state)
       = Inl (HTTPException 500 ''Transcription failed: {str(e)}'')
   \<and> (WARNING, ''Failed to cleanup temp file {file_path}: {e}'')
       \<in> set (logs (snd (transcribe_file failing_env default_config small_upload BALANCED None example_state)))"
proof -
  let ?s = "log INFO ''Processing file: {file.filename} with {quality.value} quality, model: {model_info}'' example_state"
  let ?s1 = "?s\<lparr>fs := (fs ?s)(''/tmp/tmpk3v9.mp3'' \<mapsto> ''RIFF'')\<rparr>"
  have ext: "map lower (path_suffix example_env (filename small_upload)) = ''.mp3''"
    unfolding small_upload_def UploadFile.simps by code_simp
  have ext': "map lower (path_suffix failing_env (filename small_upload)) = ''.mp3''"
    using ext by (simp add: failing_env_def)
  have v: "validate_file example_env default_config small_upload = Inr ()"
    by (simp add: validate_file_def check_file_exists_def check_file_format_def check_file_size_def
        ext default_config_def) (simp add: small_upload_def)
  have v': "validate_file failing_env default_config small_upload = Inr ()"
    by (simp add: validate_file_def check_file_exists_def check_file_format_def check_file_size_def
        ext' default_config_def) (simp add: small_upload_def)
  have c: "create_temp_file example_env default_config small_upload ?s = (Inr ''/tmp/tmpk3v9.mp3'', ?s1)"
    by (simp add: create_temp_file_def create_temp_file_try_def ext Let_def)
       (simp add: example_env_def small_upload_def default_config_def)
  have c': "create_temp_file failing_env default_config small_upload ?s = (Inr ''/tmp/tmpk3v9.mp3'', ?s1)"
    by (simp add: create_temp_file_def create_temp_file_try_def ext' Let_def)
       (simp add: failing_env_def example_env_def small_upload_def default_config_def)
  have u: "os_unlink example_env ''/tmp/tmpk3v9.mp3'' = None"
    by (simp add: example_env_def)
  have u': "os_unlink failing_env ''/tmp/tmpk3v9.mp3'' = Some (OtherError ''permission denied'')"
    by (simp add: failing_env_def)
  have nf: "\<not> contains (map lower ''decoder failed'') ''ffmpeg''"
    by code_simp
  have t: "fst (transcribe_file_try failing_env small_upload BALANCED None ''/tmp/tmpk3v9.mp3'' ?s1)
             = Inl (HTTPException 500 ''Transcription failed: {str(e)}'')"
    using nf
    by (simp add: transcribe_file_try_def load_quality_model_def perform_transcription_def
        call_transcribe_def failing_env_def example_env_def example_state_def log_def Let_def
        cleanup_gpu_memory_def service_log_gpu_memory_def manager_log_gpu_memory_def)
  from C4_staged_file_removed[OF v c, of BALANCED None] C4_staged_file_removed[OF v' c', of BALANCED None] v u u' t
  show ?thesis
    by simp
qed

text \<open>
  C5. When loading the requested size fails, \<open>load_model_by_size\<close> returns the handle
  the manager already holds, leaves handle and recorded size as they are, and logs
  the failure and the fallback; nothing is raised.
\<close>

theorem C5_fallback_to_current_model:
  assumes "whisper_load_model env (model_size_value model_size) (m_device s) = Inl e"
  shows "fst (load_model_by_size env model_size s) = m_model s
         \<and> m_model (snd (load_model_by_size env model_size s)) = m_model s
         \<and> m_model_size (snd (load_model_by_size env model_size s)) = m_model_size s
         \<and> logs (snd (load_model_by_size env model_size s)) =
             (if Some (model_size_value model_size) \<noteq> m_model_size s
              then logs s @ [(INFO, ''Loading {model_name} model''),
                             (ERROR, ''Failed to load {model_name} model: {e}''),
                             (INFO, ''Falling back to current model'')]
              else logs s)"
  using assms by (simp add: load_model_by_size_def log_def Let_def)

theorem C5_fallback_to_current_model_witness:
  "whisper_load_model failing_env (model_size_value LARGE) (m_device example_state) = Inl (OtherError ''out of memory'')
   \<and> fst (load_model_by_size failing_env LARGE example_state) = Some ''small''
   \<and> logs (snd (load_model_by_size failing_env LARGE example_state)) =
        [(INFO, ''Loading {model_name} model''),
         (ERROR, ''Failed to load {model_name} model: {e}''),
         (INFO, ''Falling back to current model'')]"
proof -
  have l: "whisper_load_model failing_env (model_size_value LARGE) (m_device example_state) = Inl (OtherError ''out of memory'')"
    by (simp add: failing_env_def)
  from C5_fallback_to_current_model[OF l] l show ?thesis
    by (simp add: example_state_def)
qed

section \<open>Occurrences of a phrase in a text\<close>

text \<open>
  The positions at which a phrase occurs in a text, and the opening phrases of the six
  credit patterns, as they are written in \<open>_subtitle_patterns\<close>.
\<close>

definition occurrences :: "string \<Rightarrow> string \<Rightarrow> nat list" where
  "occurrences hay needle =
     filter (\<lambda>p. take (length needle) (drop p hay) = needle) [0..<Suc (length hay)]"

definition credit_openings :: "string list" where
  "credit_openings =
     [''sottotitoli creati dalla comunit'' @ [CHR 0xC3, CHR 0xA0] @ '' amara.org'',
      ''subtitles created by'',
      ''sottotitoli e revisione a cura di'',
      ''subtitles and revision by'',
      ''traduzione e adattamento'',
      ''translation and adaptation'']"

section \<open>Runs of white space\<close>



section \<open>Facts about the matcher\<close>

lemma rmatch_Chr_iff:
  "(q, d) \<in> set (rmatch fl t (Chr x) p c) \<longleftrightarrow> p < length t \<and> chr_eq fl (t ! p) x \<and> q = Suc p \<and> d = c"
  by (auto simp: rmatch.simps)

lemma rmatch_Cls_iff:
  "(q, d) \<in> set (rmatch fl t (Cls k) p c) \<longleftrightarrow> p < length t \<and> in_class fl k (t ! p) \<and> q = Suc p \<and> d = c"
  by (auto simp: rmatch.simps)

lemma rmatch_Eps_iff: "(q, d) \<in> set (rmatch fl t Eps p c) \<longleftrightarrow> q = p \<and> d = c"
  by (auto simp: rmatch.simps)

lemma rmatch_Seq_iff:
  "(q, d) \<in> set (rmatch fl t (Seq a b) p c) \<longleftrightarrow>
     (\<exists>q1 d1. (q1, d1) \<in> set (rmatch fl t a p c) \<and> (q, d) \<in> set (rmatch fl t b q1 d1))"
  by (auto simp: rmatch.simps)

lemma rmatch_Alt_iff:
  "(q, d) \<in> set (rmatch fl t (Alt a b) p c) \<longleftrightarrow>
     (q, d) \<in> set (rmatch fl t a p c) \<or> (q, d) \<in> set (rmatch fl t b p c)"
  by (auto simp: rmatch.simps)

lemma rmatch_Group_iff:
  "(q, d) \<in> set (rmatch fl t (Group n a) p c) \<longleftrightarrow>
     (\<exists>d1. (q, d1) \<in> set (rmatch fl t a p c) \<and> d = d1(n \<mapsto> take (q - p) (drop p t)))"
  by (auto simp: rmatch.simps)

lemma rmatch_Backref_iff:
  "(q, d) \<in> set (rmatch fl t (Backref n) p c) \<longleftrightarrow>
     (\<exists>s. c n = Some s \<and> str_eq fl (take (length s) (drop p t)) s \<and> q = p + length s \<and> d = c)"
  by (cases "c n") (auto simp: rmatch.simps)

lemma rmatch_WordB_iff: "(q, d) \<in> set (rmatch fl t WordB p c) \<longleftrightarrow> word_boundary t p \<and> q = p \<and> d = c"
  by (auto simp: rmatch.simps)

lemma rmatch_Eos_iff: "(q, d) \<in> set (rmatch fl t Eos p c) \<longleftrightarrow> at_end t p \<and> q = p \<and> d = c"
  by (auto simp: rmatch.simps)

lemma rmatch_Rep_elim:
  assumes "(q, d) \<in> set (rmatch fl t (Rep a mn mx g) p c)"
  obtains (stop) "mn = 0" "q = p" "d = c"
  | (more) q1 d1 where "mx \<noteq> Some 0" "(q1, d1) \<in> set (rmatch fl t a p c)" "p < q1" "q1 \<le> length t"
      "(q, d) \<in> set (rmatch fl t (Rep a (mn - 1) (map_option (\<lambda>k. k - 1) mx) g) q1 d1)"
  using assms by (subst (asm) rmatch.simps) (auto simp: Let_def split: if_splits)

lemma search_mem:
  "search fl r t i adv = Some (s, e, c) \<Longrightarrow> (e, c) \<in> set (rmatch fl t r s Map.empty)"
proof (induction fl r t i adv rule: search.induct)
  case (1 fl r t s' adv)
  have le: "s' \<le> length t"
    using 1(2) by (subst (asm) search.simps) (simp split: if_splits)
  show ?case
  proof (cases "filter (\<lambda>(e, c). \<not> adv \<or> s' < e) (rmatch fl t r s' Map.empty)")
    case Nil
    with le 1(2) have "search fl r t (Suc s') False = Some (s, e, c)"
      by (subst (asm) search.simps) simp
    from 1(1)[OF _ Nil this] le show ?thesis by auto
  next
    case (Cons x xs)
    obtain e' c' where x: "x = (e', c')" by (cases x)
    from Cons x le 1(2) have eq: "s = s'" "e = e'" "c = c'"
      by (subst (asm) search.simps, simp)+
    have "(e', c') \<in> set (filter (\<lambda>(e, c). \<not> adv \<or> s' < e) (rmatch fl t r s' Map.empty))"
      using Cons x by simp
    with eq show ?thesis by auto
  qed
qed

lemma search_no_match:
  "(\<And>s. s \<le> length t \<Longrightarrow> rmatch fl t r s Map.empty = []) \<Longrightarrow> search fl r t i adv = None"
proof (induction fl r t i adv rule: search.induct)
  case (1 fl r t s adv)
  show ?case
  proof (cases "length t < s")
    case True
    then show ?thesis by (subst search.simps) simp
  next
    case False
    then have e: "rmatch fl t r s Map.empty = []" using 1(2) by simp
    have "search fl r t (Suc s) False = None"
      by (rule 1(1)[OF False _ 1(2)]) (simp_all add: e)
    with False e show ?thesis by (subst search.simps) simp
  qed
qed

text \<open>The least number of characters a match of a pattern consumes.\<close>

fun minlen :: "regex \<Rightarrow> nat" where
  "minlen (Chr x) = 1"
| "minlen (Cls k) = 1"
| "minlen Eps = 0"
| "minlen (Seq a b) = minlen a + minlen b"
| "minlen (Alt a b) = min (minlen a) (minlen b)"
| "minlen (Rep a mn mx g) = mn * minlen a"
| "minlen (Group n a) = minlen a"
| "minlen (Backref n) = 0"
| "minlen WordB = 0"
| "minlen Eos = 0"

lemma rmatch_minlen:
  "(q, d) \<in> set (rmatch fl t r p c) \<Longrightarrow> p \<le> length t \<Longrightarrow> p + minlen r \<le> q"
proof (induction fl t r p c arbitrary: q d rule: rmatch.induct)
  case (4 fl t a b p c)
  from 4(3) obtain q1 d1 where a: "(q1, d1) \<in> set (rmatch fl t a p c)"
    and b: "(q, d) \<in> set (rmatch fl t b q1 d1)"
    by (auto simp: rmatch_Seq_iff)
  from rmatch_bounds[OF a 4(4)] have 1: "q1 \<le> length t" by simp
  from 4(1)[OF a 4(4)] 4(2)[OF a refl b 1] show ?case by simp
next
  case (6 fl t a mn mx g p c)
  from 6(3) show ?case
  proof (cases rule: rmatch_Rep_elim)
    case stop
    then show ?thesis by simp
  next
    case (more q1 d1)
    have 1: "p + minlen a \<le> q1"
      by (rule 6(1)[OF more(1) more(2) 6(4)])
    have 2: "q1 + minlen (Rep a (mn - 1) (map_option (\<lambda>k. k - 1) mx) g) \<le> q"
      by (rule 6(2)[OF more(1) more(2) refl _ more(5) more(4)]) (use more in auto)
    show ?thesis
    proof (cases mn)
      case 0
      with 1 2 show ?thesis by simp
    next
      case (Suc k)
      with 1 2 show ?thesis by simp
    qed
  qed
next
  case (5 fl t a b p c)
  from 5(3) consider "(q, d) \<in> set (rmatch fl t a p c)" | "(q, d) \<in> set (rmatch fl t b p c)"
    by (auto simp: rmatch_Alt_iff)
  then show ?case
  proof cases
    case 1
    from 5(1)[OF 1 5(4)] show ?thesis by simp
  next
    case 2
    from 5(2)[OF 2 5(4)] show ?thesis by simp
  qed
qed (auto simp: rmatch_Chr_iff rmatch_Cls_iff rmatch_Eps_iff rmatch_Group_iff
      rmatch_Backref_iff rmatch_WordB_iff rmatch_Eos_iff)

lemma rmatch_caps:
  "(q, d) \<in> set (rmatch fl t r p c) \<Longrightarrow> p \<le> length t \<Longrightarrow>
     d n = c n \<or> (\<exists>s. d n = Some s \<and> length s \<le> q - p)"
proof (induction fl t r p c arbitrary: q d rule: rmatch.induct)
  case (4 fl t a b p c)
  from 4(3) obtain q1 d1 where a: "(q1, d1) \<in> set (rmatch fl t a p c)"
    and b: "(q, d) \<in> set (rmatch fl t b q1 d1)"
    by (auto simp: rmatch_Seq_iff)
  from rmatch_bounds[OF a 4(4)] have 1: "p \<le> q1" "q1 \<le> length t" by simp_all
  from rmatch_bounds[OF b 1(2)] have 2: "q1 \<le> q" by simp
  from 4(1)[OF a 4(4)] 4(2)[OF a refl b 1(2)] 1 2 show ?case by fastforce
next
  case (6 fl t a mn mx g p c)
  from 6(3) show ?case
  proof (cases rule: rmatch_Rep_elim)
    case stop
    then show ?thesis by simp
  next
    case (more q1 d1)
    have 1: "d1 n = c n \<or> (\<exists>s. d1 n = Some s \<and> length s \<le> q1 - p)"
      by (rule 6(1)[OF more(1) more(2) 6(4)])
    have 2: "d n = d1 n \<or> (\<exists>s. d n = Some s \<and> length s \<le> q - q1)"
      by (rule 6(2)[OF more(1) more(2) refl _ more(5) more(4)]) (use more in auto)
    from rmatch_bounds[OF more(5) more(4)] have "q1 \<le> q" by simp
    with 1 2 more(3) show ?thesis by fastforce
  qed
next
  case (7 fl t n' a p c)
  from 7(2) obtain d1 where a: "(q, d1) \<in> set (rmatch fl t a p c)"
    and d: "d = d1(n' \<mapsto> take (q - p) (drop p t))"
    by (auto simp: rmatch_Group_iff)
  from 7(1)[OF a 7(3)] d show ?case by auto
qed (auto simp: rmatch_Chr_iff rmatch_Cls_iff rmatch_Eps_iff rmatch_Alt_iff
      rmatch_Backref_iff rmatch_WordB_iff rmatch_Eos_iff)

lemma sub_from_length:
  "(\<And>s e c. s \<le> length t \<Longrightarrow> (e, c) \<in> set (rmatch fl t r s Map.empty)
        \<Longrightarrow> length (expand tp c) \<le> e - s)
   \<Longrightarrow> i \<le> length t \<Longrightarrow> length (sub_from fl r tp t i adv) \<le> length t - i"
proof (induction fl r tp t i adv rule: sub_from.induct)
  case (1 fl r tp t i adv)
  show ?case
  proof (cases "search fl r t i adv")
    case None
    then show ?thesis by (subst sub_from.simps) simp
  next
    case (Some x)
    obtain s e c where x: "x = (s, e, c)" by (cases x)
    from search_bounds[OF Some[unfolded x]] have b: "i \<le> s" "s \<le> length t" "s \<le> e" "e \<le> length t"
      by simp_all
    have "length (expand tp c) \<le> e - s"
      by (rule 1(2)[OF b(2) search_mem[OF Some[unfolded x]]])
    moreover have "length (sub_from fl r tp t e (e = s)) \<le> length t - e"
      by (rule 1(1)[OF Some[unfolded x] refl refl 1(2) b(4)])
    ultimately show ?thesis
      using b Some x by (subst sub_from.simps) simp
  qed
qed


lemma re_sub_length:
  "(\<And>s e c. s \<le> length t \<Longrightarrow> (e, c) \<in> set (rmatch fl t r s Map.empty)
        \<Longrightarrow> length (expand tp c) \<le> e - s)
   \<Longrightarrow> length (re_sub fl r tp t) \<le> length t"
  using sub_from_length[of t fl r tp 0 False] by (simp add: re_sub_def)

lemma re_sub_delete_length: "length (re_sub fl r [] t) \<le> length t"
  by (rule re_sub_length) simp

lemma re_sub_literal_length:
  "length lit \<le> minlen r \<Longrightarrow> length (re_sub fl r [TLit lit] t) \<le> length t"
proof (rule re_sub_length)
  fix s e c
  assume "length lit \<le> minlen r" "s \<le> length t" "(e, c) \<in> set (rmatch fl t r s Map.empty)"
  with rmatch_minlen[of e c fl t r s Map.empty] show "length (expand [TLit lit] c) \<le> e - s"
    by simp
qed

lemma re_sub_group_length: "length (re_sub fl r [TGroup n] t) \<le> length t"
proof (rule re_sub_length)
  fix s e c
  assume "s \<le> length t" "(e, c) \<in> set (rmatch fl t r s Map.empty)"
  from rmatch_caps[OF this(2) this(1), of n] show "length (expand [TGroup n] c) \<le> e - s"
    by auto
qed

section \<open>Facts about the cleaner\<close>

lemma length_remove_subtitle_credits: "length (remove_subtitle_credits x) \<le> length x"
proof -
  have "length (fold (\<lambda>pattern text. re_sub flags_I_S pattern [] text) ps x) \<le> length x" for ps
  proof (induction ps arbitrary: x)
    case Nil
    show ?case by simp
  next
    case (Cons p ps)
    have "length (fold (\<lambda>pattern text. re_sub flags_I_S pattern [] text) ps (re_sub flags_I_S p [] x))
            \<le> length (re_sub flags_I_S p [] x)"
      by (rule Cons.IH)
    also have "\<dots> \<le> length x"
      by (rule re_sub_delete_length)
    finally show ?case by simp
  qed
  then show ?thesis by (simp add: remove_subtitle_credits_def)
qed

lemma single_char_pattern_bound:
  assumes "s \<le> length t" "(e, c) \<in> set (rmatch fl t single_char_pattern s Map.empty)"
  shows "length (expand [TGroup 1, TLit '' ''] c) \<le> e - s"
proof -
  let ?rest = "Seq (plus (Cls Space)) (at_least 5 (Seq (Backref 1) (plus (Cls Space))))"
  from assms(2) obtain d1 where s1: "s < length t"
    and d1: "d1 = Map.empty(1 \<mapsto> take (Suc s - s) (drop s t))"
    and r: "(e, c) \<in> set (rmatch fl t ?rest (Suc s) d1)"
    by (auto simp: single_char_pattern_def rmatch_Seq_iff rmatch_WordB_iff rmatch_Group_iff rmatch_Cls_iff)
  from s1 have le: "Suc s \<le> length t" by simp
  from rmatch_minlen[OF r le] have m: "Suc s + 6 \<le> e"
    by (simp add: plus_def at_least_def)
  from rmatch_caps[OF r le, of 1] d1 m have "\<exists>w. c 1 = Some w \<and> length w \<le> e - Suc s"
    by auto
  with m show ?thesis by auto
qed

lemma length_remove_repetitive_patterns: "length (remove_repetitive_patterns x) \<le> length x"
proof -
  let ?a = "re_sub flags_I short_word_pattern [TGroup 1] x"
  let ?b = "re_sub flags_none single_char_pattern [TGroup 1, TLit '' ''] ?a"
  let ?c = "re_sub flags_none long_run_pattern [TLit '' ''] ?b"
  have "length ?c \<le> length ?b"
    by (rule re_sub_literal_length)
       (simp add: long_run_pattern_def between_def at_least_def plus_def)
  also have "length ?b \<le> length ?a"
    by (rule re_sub_length) (rule single_char_pattern_bound)
  also have "length ?a \<le> length x"
    by (rule re_sub_group_length)
  finally show ?thesis
    by (simp add: remove_repetitive_patterns_def Let_def)
qed

lemma py_join_Cons: "py_join sep (w # ws) = (if ws = [] then w else w @ sep @ py_join sep ws)"
  by (cases ws) simp_all

lemma length_py_join_take: "length (py_join sep (take k ws)) \<le> length (py_join sep ws)"
proof (induction ws arbitrary: k)
  case Nil
  show ?case by simp
next
  case (Cons w ws)
  show ?case
  proof (cases k)
    case 0
    then show ?thesis by simp
  next
    case (Suc j)
    with Cons.IH[of j] show ?thesis
      by (cases ws) (auto simp: py_join_Cons)
  qed
qed

lemma py_split_Nil [simp]: "py_split [] = []"
  by (subst py_split.simps) simp

lemma length_py_join_split: "length (py_join '' '' (py_split s)) \<le> length (dropWhile is_space s)"
proof (induction s rule: py_split.induct)
  case (1 s)
  show ?case
  proof (cases "dropWhile is_space s")
    case Nil
    have "py_split s = []"
      by (subst py_split.simps) (simp only: Nil list.case)
    then show ?thesis by simp
  next
    case (Cons x xs)
    let ?w = "x # takeWhile (\<lambda>c. \<not> is_space c) xs"
    let ?r = "dropWhile (\<lambda>c. \<not> is_space c) xs"
    have ih: "length (py_join '' '' (py_split ?r)) \<le> length (dropWhile is_space ?r)"
      by (rule 1[OF Cons])
    have len: "length ?w + length ?r = length (x # xs)"
      using takeWhile_dropWhile_id[of "\<lambda>c. \<not> is_space c" xs]
      by (metis length_Cons length_append add_Suc)
    have sp: "py_split s = ?w # py_split ?r"
      by (subst py_split.simps) (simp only: Cons list.case)
    show ?thesis
    proof (cases "py_split ?r = []")
      case True
      with sp len Cons show ?thesis by simp
    next
      case False
      have "?r \<noteq> []"
      proof
        assume "?r = []"
        then have "py_split ?r = []" by (simp only: py_split_Nil)
        with False show False by simp
      qed
      then have "is_space (hd ?r)"
        using hd_dropWhile[of "\<lambda>c. \<not> is_space c" xs] by simp
      with \<open>?r \<noteq> []\<close> have "Suc (length (dropWhile is_space ?r)) \<le> length ?r"
        by (cases ?r) (auto intro: le_trans[OF length_dropWhile_le])
      with ih len sp False Cons show ?thesis
        by (simp add: py_join_Cons)
    qed
  qed
qed

lemma length_py_strip: "length (py_strip s) \<le> length s"
  unfolding py_strip_def
  by (metis length_dropWhile_le length_rev le_trans)

lemma length_remove_trailing_repetitions:
  assumes "remove_trailing_repetitions x = Inr y"
  shows "length y \<le> length x"
proof -
  let ?words = "py_split (py_strip x)"
  have j: "length (py_join '' '' (py_slice_to ?words k)) \<le> length x" for k
  proof -
    have "length (py_join '' '' (py_slice_to ?words k)) \<le> length (py_join '' '' ?words)"
      by (simp add: py_slice_to_def length_py_join_take)
    also have "\<dots> \<le> length (dropWhile is_space (py_strip x))"
      by (rule length_py_join_split)
    also have "\<dots> \<le> length (py_strip x)"
      by (rule length_dropWhile_le)
    also have "\<dots> \<le> length x"
      by (rule length_py_strip)
    finally show ?thesis .
  qed
  show ?thesis
  proof (cases "length ?words \<le> 4")
    case True
    with assms show ?thesis by (simp add: remove_trailing_repetitions_def Let_def)
  next
    case False
    then have ne: "?words \<noteq> []" by auto
    let ?n = "length (takeWhile (\<lambda>w. w = last ?words) (rev ?words))"
    let ?t = "if ?n > 5 then py_join '' '' (py_slice_to ?words (- int ?n + 1)) else x"
    from assms False ne have y: "y = re_sub flags_none trailing_letter_pattern [] ?t"
      by (simp add: remove_trailing_repetitions_def Let_def)
    have "length y \<le> length ?t"
      unfolding y by (rule re_sub_delete_length)
    also have "length ?t \<le> length x"
      using j by simp
    finally show ?thesis .
  qed
qed

lemma length_cleanup_spaces: "length (cleanup_spaces x) \<le> length x"
  unfolding cleanup_spaces_def
  by (rule re_sub_literal_length) (simp add: plus_def)

lemma remove_trailing_repetitions_total: "\<exists>y. remove_trailing_repetitions x = Inr y"
  by (auto simp: remove_trailing_repetitions_def Let_def)

lemma sub_from_no_match:
  "search fl r t i adv = None \<Longrightarrow> sub_from fl r tp t i adv = drop i t"
  by (subst sub_from.simps) simp

lemma re_sub_no_match:
  "(\<And>s. s \<le> length t \<Longrightarrow> rmatch fl t r s Map.empty = []) \<Longrightarrow> re_sub fl r tp t = t"
proof -
  assume "\<And>s. s \<le> length t \<Longrightarrow> rmatch fl t r s Map.empty = []"
  then have "search fl r t 0 False = None"
    by (rule search_no_match)
  then show ?thesis
    by (simp add: re_sub_def sub_from_no_match)
qed

lemma seqs_tail:
  "(q, d) \<in> set (rmatch fl t (seqs (rs @ [a, b])) p c) \<Longrightarrow> p \<le> length t \<Longrightarrow>
     \<exists>p1 c1 q1 d1. p1 \<le> length t \<and> (q1, d1) \<in> set (rmatch fl t a p1 c1)"
proof (induction rs arbitrary: p c)
  case Nil
  then show ?case by (auto simp: rmatch_Seq_iff)
next
  case (Cons r rs)
  have "seqs ((r # rs) @ [a, b]) = Seq r (seqs (rs @ [a, b]))"
    by (cases rs) simp_all
  with Cons.prems obtain p1 c1 where 1: "(p1, c1) \<in> set (rmatch fl t r p c)"
    and 2: "(q, d) \<in> set (rmatch fl t (seqs (rs @ [a, b])) p1 c1)"
    by (auto simp: rmatch_Seq_iff)
  from rmatch_bounds[OF 1 Cons.prems(2)] have "p1 \<le> length t" by simp
  from Cons.IH[OF 2 this] show ?case .
qed

lemma contains_at:
  "take (length needle) (drop p xs) = needle \<Longrightarrow> p \<le> length xs \<Longrightarrow> contains xs needle"
proof (induction xs arbitrary: p)
  case Nil
  then show ?case by simp
next
  case (Cons x xs)
  show ?case
  proof (cases p)
    case 0
    with Cons.prems show ?thesis by simp
  next
    case (Suc k)
    with Cons.prems Cons.IH[of k] show ?thesis by simp
  qed
qed

lemma lower_qtss: "map lower ''qtss'' = ''qtss''"
  by code_simp

lemma lits_qtss_match:
  assumes "(q, d) \<in> set (rmatch flags_I_S t (lits ''qtss'') p c)"
  shows "contains (map lower t) ''qtss''"
proof -
  from assms lower_qtss have l: "p + 3 < length t"
    and c: "lower (t ! p) = CHR ''q''" "lower (t ! (p + 1)) = CHR ''t''"
      "lower (t ! (p + 2)) = CHR ''s''" "lower (t ! (p + 3)) = CHR ''s''"
    by (auto simp: lits_def rmatch_Seq_iff rmatch_Chr_iff chr_eq_def flags_I_S_def numeral_eq_Suc)
  from l have "drop p t = t ! p # t ! (p + 1) # t ! (p + 2) # t ! (p + 3) # drop (p + 4) t"
    by (simp add: Cons_nth_drop_Suc numeral_eq_Suc)
  then have "take (length ''qtss'') (drop p (map lower t)) = ''qtss''"
    using c by (simp add: drop_map)
  moreover from l have "p \<le> length (map lower t)" by simp
  ultimately show ?thesis
    by (rule contains_at)
qed


lemma subtitle_pattern_needs_qtss:
  assumes "pattern \<in> set subtitle_patterns" "(q, d) \<in> set (rmatch flags_I_S t pattern p c)" "p \<le> length t"
  shows "contains (map lower t) ''qtss''"
proof -
  have two: "\<exists>rs. seqs [a, b, lits ''qtss'', o'] = seqs (rs @ [lits ''qtss'', o'])" for a b o'
    by (rule exI[of _ "[a, b]"]) simp
  have six: "\<exists>rs. seqs [a1, a2, a3, a4, a5, a6, lits ''qtss'', o'] = seqs (rs @ [lits ''qtss'', o'])"
    for a1 a2 a3 a4 a5 a6 o'
    by (rule exI[of _ "[a1, a2, a3, a4, a5, a6]"]) simp
  from assms(1) have "\<exists>rs. pattern = seqs (rs @ [lits ''qtss'', opt (Chr CHR ''.'')])"
    unfolding subtitle_patterns_def
    by (simp only: list.set insert_iff empty_iff simp_thms) (elim disjE; hypsubst; (rule two | rule six))
  then obtain rs where "pattern = seqs (rs @ [lits ''qtss'', opt (Chr CHR ''.'')])" ..
  with assms(2) have "(q, d) \<in> set (rmatch flags_I_S t (seqs (rs @ [lits ''qtss'', opt (Chr CHR ''.'')])) p c)"
    by simp
  from seqs_tail[OF this assms(3)] obtain p1 c1 q1 d1
    where "(q1, d1) \<in> set (rmatch flags_I_S t (lits ''qtss'') p1 c1)"
    by blast
  then show ?thesis by (rule lits_qtss_match)
qed

lemma lower_eq_dot: "lower c = CHR ''.'' \<longleftrightarrow> c = CHR ''.''"
proof
  assume l: "lower c = CHR ''.''"
  show "c = CHR ''.''"
  proof (rule ccontr)
    assume n: "c \<noteq> CHR ''.''"
    with l have up: "(65 \<le> code c \<and> code c \<le> 90) \<or> (192 \<le> code c \<and> code c \<le> 214) \<or> (216 \<le> code c \<and> code c \<le> 222)"
      and eq: "char_of (code c + 32) = CHR ''.''"
      by (auto simp: lower_def Let_def split: if_splits)
    from eq have "of_char (char_of (code c + 32)) = (of_char CHR ''.'' :: nat)"
      by simp
    then have "(code c + 32) mod 256 = 46"
      by simp
    with up show False by auto
  qed
next
  assume "c = CHR ''.''"
  then show "lower c = CHR ''.''"
    by (simp add: lower_def code_def)
qed

lemma rmatch_Rep_stop: "mn = 0 \<Longrightarrow> (p, c) \<in> set (rmatch fl t (Rep a mn mx g) p c)"
  by (subst rmatch.simps) (simp add: Let_def)

lemma rmatch_Rep_more:
  "mx \<noteq> Some 0 \<Longrightarrow> (q1, d1) \<in> set (rmatch fl t a p c) \<Longrightarrow> p < q1 \<Longrightarrow> q1 \<le> length t \<Longrightarrow>
   (q, d) \<in> set (rmatch fl t (Rep a (mn - 1) (map_option (\<lambda>k. k - 1) mx) g) q1 d1) \<Longrightarrow>
   (q, d) \<in> set (rmatch fl t (Rep a mn mx g) p c)"
  by (subst rmatch.simps) (force simp: Let_def)

lemma rmatch_lazy_any:
  "p \<le> q \<Longrightarrow> q \<le> length t \<Longrightarrow> (q, c) \<in> set (rmatch flags_I_S t lazy_any p c)"
proof (induction "q - p" arbitrary: p)
  case 0
  then show ?case by (simp add: lazy_any_def rmatch_Rep_stop)
next
  case (Suc n)
  then have 1: "p < length t" "Suc p \<le> q" "n = q - Suc p" by simp_all
  have a: "(Suc p, c) \<in> set (rmatch flags_I_S t (Cls Dot) p c)"
    using 1 by (simp add: rmatch_Cls_iff flags_I_S_def)
  have b: "(q, c) \<in> set (rmatch flags_I_S t lazy_any (Suc p) c)"
    by (rule Suc(1)[OF 1(3) 1(2) Suc(4)])
  show ?case
    unfolding lazy_any_def
    by (rule rmatch_Rep_more[OF _ a]) (use 1 b in \<open>simp_all add: lazy_any_def\<close>)
qed

lemma lits_Cons: "lits (a # b # l) = Seq (Chr a) (lits (b # l))"
  by (simp add: lits_def)

lemma lits_single: "lits [a] = Chr a"
  by (simp add: lits_def)

lemma rmatch_lits:
  "l \<noteq> [] \<Longrightarrow>
   rmatch flags_I_S t (lits l) p c =
     (if p + length l \<le> length t \<and> map lower (take (length l) (drop p t)) = map lower l
      then [(p + length l, c)] else [])"
proof (induction l arbitrary: p rule: list_nonempty_induct)
  case (single a)
  show ?case
    by (cases "p < length t")
       (auto simp: lits_single rmatch.simps(1) chr_eq_def flags_I_S_def take_Suc_conv_app_nth hd_drop_conv_nth
          Cons_nth_drop_Suc[symmetric])
next
  case (cons a l)
  obtain b l' where l: "l = b # l'" using cons(1) by (cases l) auto
  show ?case
  proof (cases "p < length t")
    case False
    then show ?thesis by (simp add: l lits_Cons rmatch.simps(1,4))
  next
    case True
    then have d: "drop p t = t ! p # drop (Suc p) t"
      by (simp add: Cons_nth_drop_Suc)
    show ?thesis
      using True cons(2)[of "Suc p"]
      by (auto simp: l lits_Cons rmatch.simps(1,4) chr_eq_def flags_I_S_def d)
  qed
qed


lemma occurrences_lower_iff:
  "p \<in> set (occurrences (map lower t) (map lower l)) \<longleftrightarrow>
     p \<le> length t \<and> map lower (take (length l) (drop p t)) = map lower l"
  by (simp add: occurrences_def take_map drop_map less_Suc_eq_le del: upt_Suc)

lemma occurrence_fits:
  "map lower (take (length l) (drop p t)) = map lower l \<Longrightarrow> p \<le> length t \<Longrightarrow> p + length l \<le> length t"
  by (drule arg_cong[where f = length]) simp

lemma rmatch_lits_occurrence:
  assumes "l \<noteq> []"
  shows "rmatch flags_I_S t (lits l) p c =
           (if p \<in> set (occurrences (map lower t) (map lower l)) then [(p + length l, c)] else [])"
proof -
  have "(p + length l \<le> length t \<and> map lower (take (length l) (drop p t)) = map lower l)
          = (p \<in> set (occurrences (map lower t) (map lower l)))"
    unfolding occurrences_lower_iff using occurrence_fits[of l p t] by auto
  then show ?thesis
    by (simp only: rmatch_lits[OF assms])
qed

lemma rmatch_lits_mem:
  "l \<noteq> [] \<Longrightarrow>
   (q, d) \<in> set (rmatch flags_I_S t (lits l) p c) \<longleftrightarrow>
     q = p + length l \<and> d = c \<and> p \<in> set (occurrences (map lower t) (map lower l))"
  by (auto simp: rmatch_lits_occurrence)

lemma match_opening:
  assumes "(q, d) \<in> set (rmatch flags_I_S t (Seq (lits l) rest) p c)" "l \<noteq> []"
  shows "p \<in> set (occurrences (map lower t) (map lower l))"
    and "(q, d) \<in> set (rmatch flags_I_S t rest (p + length l) c)"
  using assms by (auto simp: rmatch_Seq_iff rmatch_lits_mem)

lemma match_lazy_qtss:
  assumes "(q, d) \<in> set (rmatch flags_I_S t (Seq lazy_any (Seq (lits ''qtss'') r)) p c)" "p \<le> length t"
  shows "\<exists>p'. p \<le> p' \<and> p' \<in> set (occurrences (map lower t) (map lower ''qtss''))"
proof -
  from assms(1) obtain q1 d1 where 1: "(q1, d1) \<in> set (rmatch flags_I_S t lazy_any p c)"
    and 2: "(q, d) \<in> set (rmatch flags_I_S t (Seq (lits ''qtss'') r) q1 d1)"
    by (auto simp: rmatch_Seq_iff)
  from rmatch_bounds[OF 1 assms(2)] have "p \<le> q1" by simp
  moreover from match_opening(1)[OF 2] have "q1 \<in> set (occurrences (map lower t) (map lower ''qtss''))"
    by simp
  ultimately show ?thesis by blast
qed

lemma rmatch_Seq_lits:
  "l \<noteq> [] \<Longrightarrow>
   rmatch flags_I_S t (Seq (lits l) r) p c =
     (if p \<in> set (occurrences (map lower t) (map lower l))
      then rmatch flags_I_S t r (p + length l) c else [])"
  by (simp add: rmatch.simps(4) rmatch_lits_occurrence)

lemma rmatch_opt_Chr:
  "rmatch fl t (opt (Chr a)) p c =
     (if p < length t \<and> chr_eq fl (t ! p) a then [(Suc p, c), (p, c)] else [(p, c)])"
proof -
  have "rmatch fl t (Rep (Chr a) 0 (Some 0) True) q d = [(q, d)]" for q d
    by (subst rmatch.simps) (simp add: Let_def)
  then show ?thesis
    unfolding opt_def
    by (subst rmatch.simps) (simp add: Let_def rmatch.simps(1))
qed

lemma concat_first_end:
  "(\<And>x. x \<in> set xs \<Longrightarrow> f x = [] \<or> fst (hd (f x)) = E) \<Longrightarrow>
   concat (map f xs) = [] \<or> fst (hd (concat (map f xs))) = E"
proof (induction xs)
  case Nil
  show ?case by simp
next
  case (Cons x xs)
  show ?case
  proof (cases "f x = []")
    case True
    with Cons show ?thesis by simp
  next
    case False
    with Cons.prems[of x] show ?thesis by simp
  qed
qed

lemma seq_first_end:
  assumes "\<And>q d. S \<le> q \<Longrightarrow> q \<le> length t \<Longrightarrow>
             rmatch fl t b q d = [] \<or> fst (hd (rmatch fl t b q d)) = E"
    and "S \<le> p" "p \<le> length t"
  shows "rmatch fl t (Seq a b) p c = [] \<or> fst (hd (rmatch fl t (Seq a b) p c)) = E"
proof -
  have "(\<lambda>(q, d). rmatch fl t b q d) x = [] \<or> fst (hd ((\<lambda>(q, d). rmatch fl t b q d) x)) = E"
    if "x \<in> set (rmatch fl t a p c)" for x
  proof -
    obtain q d where x: "x = (q, d)" by (cases x)
    from rmatch_bounds[OF that[unfolded x] assms(3)] assms(2) have "S \<le> q" "q \<le> length t" by simp_all
    from assms(1)[OF this] x show ?thesis by simp
  qed
  then show ?thesis
    unfolding rmatch.simps(4) by (rule concat_first_end)
qed

lemma search_first:
  assumes "\<And>s'. i \<le> s' \<Longrightarrow> s' < s \<Longrightarrow> rmatch fl t r s' Map.empty = []"
    and "rmatch fl t r s Map.empty = (e, c) # rest" "i \<le> s" "s \<le> length t"
  shows "search fl r t i False = Some (s, e, c)"
  using assms
proof (induction "s - i" arbitrary: i)
  case 0
  then have "i = s" by simp
  with 0 show ?case by (subst search.simps) simp
next
  case (Suc n)
  then have "i < s" by simp
  with Suc(3) have e: "rmatch fl t r i Map.empty = []" by simp
  have "search fl r t (Suc i) False = Some (s, e, c)"
    by (rule Suc(1)) (use Suc \<open>i < s\<close> in auto)
  with e Suc(6) \<open>i < s\<close> show ?case by (subst search.simps) simp
qed

lemma search_none_from:
  "(\<And>s. i \<le> s \<Longrightarrow> s \<le> length t \<Longrightarrow> rmatch fl t r s Map.empty = []) \<Longrightarrow> search fl r t i adv = None"
proof (induction fl r t i adv rule: search.induct)
  case (1 fl r t s adv)
  show ?case
  proof (cases "length t < s")
    case True
    then show ?thesis by (subst search.simps) simp
  next
    case False
    then have e: "rmatch fl t r s Map.empty = []" using 1(2) by simp
    have "search fl r t (Suc s) False = None"
      by (rule 1(1)[OF False]) (use e 1(2) in simp_all)
    with False e show ?thesis by (subst search.simps) simp
  qed
qed

lemma re_sub_one_match:
  assumes "\<And>s'. s' \<noteq> s \<Longrightarrow> s' \<le> length t \<Longrightarrow> rmatch fl t r s' Map.empty = []"
    and "rmatch fl t r s Map.empty = (e, c) # rest" "s < e" "s \<le> length t"
  shows "re_sub fl r [] t = take s t @ drop e t"
proof -
  have first: "search fl r t 0 False = Some (s, e, c)"
    by (rule search_first[OF _ assms(2) _ assms(4)]) (use assms(1,4) in auto)
  have later: "search fl r t e False = None"
    by (rule search_none_from) (use assms(1,3) in auto)
  have "sub_from fl r [] t 0 False = take s t @ sub_from fl r [] t e False"
    using first assms(3) by (subst sub_from.simps) simp
  also have "sub_from fl r [] t e False = drop e t"
    by (rule sub_from_no_match[OF later])
  finally show ?thesis by (simp add: re_sub_def)
qed


lemma lower_literals:
  "map lower ''subtitles created by'' = ''subtitles created by''"
  "map lower ''community'' = ''community''"
  "map lower ''amara.org'' = ''amara.org''"
  by code_simp+

lemma seq_lits_lazy_intro:
  assumes "p \<in> set (occurrences (map lower t) (map lower l))" "l \<noteq> []"
    and "p + length l \<le> p'" "p' \<le> length t"
    and "(q, d) \<in> set (rmatch flags_I_S t r p' c)"
  shows "(q, d) \<in> set (rmatch flags_I_S t (Seq (lits l) (Seq lazy_any r)) p c)"
proof -
  have "(p + length l, c) \<in> set (rmatch flags_I_S t (lits l) p c)"
    using assms(1,2) by (simp add: rmatch_lits_mem)
  moreover have "(p', c) \<in> set (rmatch flags_I_S t lazy_any (p + length l) c)"
    by (rule rmatch_lazy_any[OF assms(3,4)])
  ultimately show ?thesis
    using assms(5) by (auto simp: rmatch_Seq_iff)
qed

lemma simple_credit_no_match:
  assumes "l \<noteq> []"
    and "\<And>p p'. p \<in> set (occurrences (map lower u) (map lower l)) \<Longrightarrow>
            p' \<in> set (occurrences (map lower u) ''qtss'') \<Longrightarrow> p + length l \<le> p' \<Longrightarrow> False"
  shows "re_sub flags_I_S (seqs [lits l, lazy_any, lits ''qtss'', opt (Chr CHR ''.'')]) [] u = u"
proof (rule re_sub_no_match)
  fix s
  assume s: "s \<le> length u"
  let ?rest = "Seq lazy_any (Seq (lits ''qtss'') (opt (Chr CHR ''.'')))"
  show "rmatch flags_I_S u (seqs [lits l, lazy_any, lits ''qtss'', opt (Chr CHR ''.'')]) s Map.empty = []"
  proof (cases "rmatch flags_I_S u (Seq (lits l) ?rest) s Map.empty")
    case Nil
    then show ?thesis by simp
  next
    case (Cons a as)
    obtain q d where "a = (q, d)" by (cases a)
    with Cons have m: "(q, d) \<in> set (rmatch flags_I_S u (Seq (lits l) ?rest) s Map.empty)"
      by simp
    from match_opening[OF m assms(1)]
    have o: "s \<in> set (occurrences (map lower u) (map lower l))"
      and r: "(q, d) \<in> set (rmatch flags_I_S u ?rest (s + length l) Map.empty)"
      by simp_all
    from o have "s + length l \<le> length u"
      unfolding occurrences_lower_iff using occurrence_fits by blast
    from match_lazy_qtss[OF r this, unfolded lower_qtss] obtain p'
      where "s + length l \<le> p'" "p' \<in> set (occurrences (map lower u) ''qtss'')"
      by blast
    with assms(2)[OF o] show ?thesis by blast
  qed
qed


lemma credit_removed:
  assumes t: "t = pre @ c1 @ x @ c2 @ y @ c3 @ z @ c4 @ post"
    and c1: "map lower c1 = ''subtitles created by''"
    and c2: "map lower c2 = ''community''"
    and c3: "map lower c3 = ''amara.org''"
    and c4: "map lower c4 = ''qtss''"
    and openings: "map (\<lambda>opening. occurrences (map lower t) (map lower opening)) credit_openings
                     = [[], [length pre], [], [], [], []]"
    and closing: "filter (\<lambda>p. length pre \<le> p) (occurrences (map lower t) ''qtss'')
                     = [length (pre @ c1 @ x @ c2 @ y @ c3 @ z)]"
  shows "remove_subtitle_credits t = pre @ (if post \<noteq> [] \<and> hd post = CHR ''.'' then tl post else post)"
proof -
  define S where "S = length pre"
  define A2 where "A2 = length (pre @ c1 @ x)"
  define A3 where "A3 = length (pre @ c1 @ x @ c2 @ y)"
  define Q where "Q = length (pre @ c1 @ x @ c2 @ y @ c3 @ z)"
  define dot where "dot = (post \<noteq> [] \<and> hd post = CHR ''.'')"
  define E where "E = Q + 4 + (if dot then 1 else 0)"
  define post' where "post' = (if dot then tl post else post)"
  define tail where "tail = Seq (lits ''qtss'') (opt (Chr CHR ''.''))"
  define P2 where "P2 = Seq (lits ''subtitles created by'') (Seq lazy_any (Seq (lits ''community'')
                     (Seq lazy_any (Seq (lits ''amara.org'') (Seq lazy_any tail)))))"
  have l1: "length c1 = 20" using arg_cong[OF c1, of length] by simp
  have l2: "length c2 = 9" using arg_cong[OF c2, of length] by simp
  have l3: "length c3 = 9" using arg_cong[OF c3, of length] by simp
  have l4: "length c4 = 4" using arg_cong[OF c4, of length] by simp
  have n: "length t = Q + 4 + length post"
    by (simp add: t Q_def l4)
  have SQ: "S + 38 \<le> Q" "S + 20 \<le> A2" "A2 + 9 \<le> A3" "A3 + 9 \<le> Q"
    by (simp_all add: S_def Q_def A2_def A3_def l1 l2 l3)
  have E: "Q < E" "E \<le> length t" "drop E t = post'" "take S t = pre"
    by (cases post; auto simp: E_def n dot_def post'_def t Q_def S_def l4 drop_Suc)+
  have o1: "occurrences (map lower t) (map lower (''sottotitoli creati dalla comunit'' @ [CHR 0xC3, CHR 0xA0] @ '' amara.org'')) = []"
    and o2: "occurrences (map lower t) (map lower ''subtitles created by'') = [S]"
    and o3: "occurrences (map lower t) (map lower ''sottotitoli e revisione a cura di'') = []"
    and o4: "occurrences (map lower t) (map lower ''subtitles and revision by'') = []"
    and o5: "occurrences (map lower t) (map lower ''traduzione e adattamento'') = []"
    and o6: "occurrences (map lower t) (map lower ''translation and adaptation'') = []"
    using openings unfolding credit_openings_def S_def by simp_all
  have q_only: "p = Q" if "S \<le> p" "p \<in> set (occurrences (map lower t) ''qtss'')" for p
  proof -
    from that have "p \<in> set (filter (\<lambda>p. length pre \<le> p) (occurrences (map lower t) ''qtss''))"
      by (simp add: S_def)
    then show ?thesis
      unfolding closing by (simp add: Q_def)
  qed
  have q_at: "Q \<in> set (occurrences (map lower t) ''qtss'')"
  proof -
    have "take (length ''qtss'') (drop Q t) = c4"
      by (simp add: t Q_def l4)
    then have "map lower (take (length ''qtss'') (drop Q t)) = map lower ''qtss''"
      by (simp only: c4 lower_qtss)
    moreover have "Q \<le> length t" using n by simp
    ultimately have "Q \<in> set (occurrences (map lower t) (map lower ''qtss''))"
      unfolding occurrences_lower_iff by blast
    then show ?thesis unfolding lower_qtss .
  qed
  text \<open>The first pattern finds nothing in \<open>t\<close>.\<close>
  have none: "re_sub flags_I_S (seqs [lits l, lazy_any, lits ''qtss'', opt (Chr CHR ''.'')]) [] t = t"
    if "l \<noteq> []" "occurrences (map lower t) (map lower l) = []" for l
  proof (rule simple_credit_no_match[OF that(1)])
    fix p p'
    assume "p \<in> set (occurrences (map lower t) (map lower l))"
    with that(2) show False by simp
  qed
  have first: "re_sub flags_I_S (seqs [lits (''sottotitoli creati dalla comunit'' @ [CHR 0xC3, CHR 0xA0] @ '' amara.org''),
                 lazy_any, lits ''qtss'', opt (Chr CHR ''.'')]) [] t = t"
    by (rule none[OF _ o1]) simp
  text \<open>The second pattern matches once, from \<open>S\<close> to \<open>E\<close>.\<close>
  have ne: "''qtss'' \<noteq> []" and len4: "length ''qtss'' = 4"
    by simp_all
  note tail_eq = rmatch_Seq_lits[OF ne, of t "opt (Chr CHR ''.'')", unfolded lower_qtss len4, folded tail_def]
  have tail_list: "rmatch flags_I_S t tail p c = (if p = Q then (if dot then [(Q + 5, c), (Q + 4, c)] else [(Q + 4, c)]) else [])"
    if "S \<le> p" "p \<le> length t" for p c
  proof (cases "p = Q")
    case False
    with q_only[OF that(1)] have "p \<notin> set (occurrences (map lower t) ''qtss'')"
      by blast
    with False show ?thesis
      by (simp only: tail_eq if_False)
  next
    case True
    have d: "(Q + 4 < length t \<and> chr_eq flags_I_S (t ! (Q + 4)) CHR ''.'') = dot"
    proof (cases post)
      case Nil
      then show ?thesis by (simp add: dot_def n)
    next
      case (Cons a as)
      have ta: "t ! (Q + 4) = a"
        by (simp add: t Q_def l4 Cons nth_append)
      have ld: "lower CHR ''.'' = CHR ''.''" by code_simp
      show ?thesis
        by (simp add: dot_def n Cons chr_eq_def flags_I_S_def ta ld lower_eq_dot)
    qed
    have "rmatch flags_I_S t tail Q c = rmatch flags_I_S t (opt (Chr CHR ''.'')) (Q + 4) c"
      using q_at by (simp only: tail_eq if_True)
    also have "\<dots> = (if dot then [(Q + 5, c), (Q + 4, c)] else [(Q + 4, c)])"
      unfolding rmatch_opt_Chr d by simp
    finally show ?thesis using True by simp
  qed
  have tail_good: "rmatch flags_I_S t tail p c = [] \<or> fst (hd (rmatch flags_I_S t tail p c)) = E"
    if "S \<le> p" "p \<le> length t" for p c
    unfolding tail_list[OF that] by (simp add: E_def)
  have good: "rmatch flags_I_S t P2 p c = [] \<or> fst (hd (rmatch flags_I_S t P2 p c)) = E"
    if "S \<le> p" "p \<le> length t" for p c
    unfolding P2_def
    by (intro seq_first_end[where S = S] tail_good that)
  have at_S: "(E, Map.empty) \<in> set (rmatch flags_I_S t P2 S Map.empty)"
    unfolding P2_def
  proof (rule seq_lits_lazy_intro[where p' = A2], goal_cases)
    case 1
    show ?case unfolding o2 by simp
  next
    case 5
    show ?case
    proof (rule seq_lits_lazy_intro[where p' = A3], goal_cases)
      case 1
      have "take (length ''community'') (drop A2 t) = c2" by (simp add: t A2_def l2)
      then have "map lower (take (length ''community'') (drop A2 t)) = map lower ''community''"
        by (simp only: c2 lower_literals)
      moreover have "A2 \<le> length t" using n SQ by simp
      ultimately show ?case
        unfolding occurrences_lower_iff by blast
    next
      case 5
      show ?case
      proof (rule seq_lits_lazy_intro[where p' = Q], goal_cases)
        case 1
        have "take (length ''amara.org'') (drop A3 t) = c3" by (simp add: t A3_def l3)
        then have "map lower (take (length ''amara.org'') (drop A3 t)) = map lower ''amara.org''"
          by (simp only: c3 lower_literals)
        moreover have "A3 \<le> length t" using n SQ by simp
        ultimately show ?case
          unfolding occurrences_lower_iff by blast
      next
        case 5
        have "S \<le> Q" "Q \<le> length t" using SQ n by simp_all
        from tail_list[OF this] show ?case by (simp add: E_def)
      qed (use SQ n in simp_all)
    qed (use SQ n in simp_all)
  qed (use SQ n in simp_all)
  have S_le: "S \<le> length t" using SQ n by simp
  from at_S have ne2: "rmatch flags_I_S t P2 S Map.empty \<noteq> []"
    by auto
  with good[OF le_refl S_le, of Map.empty] have "fst (hd (rmatch flags_I_S t P2 S Map.empty)) = E"
    by blast
  with ne2 obtain c' rest where hd_S: "rmatch flags_I_S t P2 S Map.empty = (E, c') # rest"
    by (cases "rmatch flags_I_S t P2 S Map.empty") auto
  have not_S: "rmatch flags_I_S t P2 s' Map.empty = []" if "s' \<noteq> S" "s' \<le> length t" for s'
  proof (cases "rmatch flags_I_S t P2 s' Map.empty")
    case Nil
    then show ?thesis .
  next
    case (Cons a as)
    obtain q d where "a = (q, d)" by (cases a)
    with Cons have "(q, d) \<in> set (rmatch flags_I_S t P2 s' Map.empty)" by simp
    from match_opening(1)[OF this[unfolded P2_def]] that(1) show ?thesis
      unfolding o2 by simp
  qed
  have second: "re_sub flags_I_S P2 [] t = pre @ post'"
    using re_sub_one_match[OF not_S hd_S _ S_le] SQ E by simp
  text \<open>The later patterns find nothing in what is left.\<close>
  have later: "re_sub flags_I_S (seqs [lits l, lazy_any, lits ''qtss'', opt (Chr CHR ''.'')]) [] (pre @ post') = pre @ post'"
    if "l \<noteq> []" "occurrences (map lower t) (map lower l) = []" for l
  proof (rule simple_credit_no_match[OF that(1)])
    fix p p'
    assume p: "p \<in> set (occurrences (map lower (pre @ post')) (map lower l))"
      and p': "p' \<in> set (occurrences (map lower (pre @ post')) ''qtss'')"
      and le: "p + length l \<le> p'"
    show False
    proof (cases "p + length l \<le> S")
      case True
      then have "take (length l) (drop p (pre @ post')) = take (length l) (drop p t)"
        by (simp add: t S_def)
      moreover have "p \<le> length t" using True S_le by simp
      ultimately have "p \<in> set (occurrences (map lower t) (map lower l))"
        using p unfolding occurrences_lower_iff by simp
      with that(2) show False by simp
    next
      case False
      with le have S': "S \<le> p'" by simp
      from p' have "p' \<in> set (occurrences (map lower (pre @ post')) (map lower ''qtss''))"
        by (simp only: lower_qtss)
      then have 1: "p' \<le> length (pre @ post')"
        and 2: "map lower (take (length ''qtss'') (drop p' (pre @ post'))) = map lower ''qtss''"
        unfolding occurrences_lower_iff by blast+
      have "drop p' (pre @ post') = drop (p' - S) post'"
        using S' by (simp add: S_def)
      also have "\<dots> = drop (p' - S) (drop E t)"
        by (simp only: E(3))
      also have "\<dots> = drop (p' - S + E) t"
        by (simp only: drop_drop)
      finally have "drop p' (pre @ post') = drop (p' - S + E) t" .
      with 2 have "map lower (take (length ''qtss'') (drop (p' - S + E) t)) = map lower ''qtss''"
        by (simp only:)
      moreover have "p' - S + E \<le> length t"
      proof -
        have "length t = E + length post'" using E(2,3) by (metis le_add_diff_inverse length_drop)
        with 1 S' show ?thesis by (simp add: S_def)
      qed
      ultimately have "p' - S + E \<in> set (occurrences (map lower t) (map lower ''qtss''))"
        unfolding occurrences_lower_iff by blast
      then have "p' - S + E \<in> set (occurrences (map lower t) ''qtss'')"
        unfolding lower_qtss .
      moreover have "S \<le> p' - S + E" using SQ E by simp
      ultimately have "p' - S + E = Q" by (rule q_only[rotated])
      with E(1) show False by simp
    qed
  qed
  have l3': "re_sub flags_I_S (seqs [lits ''sottotitoli e revisione a cura di'', lazy_any, lits ''qtss'',
                 opt (Chr CHR ''.'')]) [] (pre @ post') = pre @ post'"
    by (rule later[OF _ o3]) simp
  have l4': "re_sub flags_I_S (seqs [lits ''subtitles and revision by'', lazy_any, lits ''qtss'',
                 opt (Chr CHR ''.'')]) [] (pre @ post') = pre @ post'"
    by (rule later[OF _ o4]) simp
  have l5': "re_sub flags_I_S (seqs [lits ''traduzione e adattamento'', lazy_any, lits ''qtss'',
                 opt (Chr CHR ''.'')]) [] (pre @ post') = pre @ post'"
    by (rule later[OF _ o5]) simp
  have l6': "re_sub flags_I_S (seqs [lits ''translation and adaptation'', lazy_any, lits ''qtss'',
                 opt (Chr CHR ''.'')]) [] (pre @ post') = pre @ post'"
    by (rule later[OF _ o6]) simp
  have P2_eq: "seqs [lits ''subtitles created by'', lazy_any, lits ''community'', lazy_any, lits ''amara.org'',
                 lazy_any, lits ''qtss'', opt (Chr CHR ''.'')] = P2"
    by (simp add: P2_def tail_def)
  have fold6: "fold f [a1, a2, a3, a4, a5, a6] v = f a6 (f a5 (f a4 (f a3 (f a2 (f a1 v)))))"
    for f :: "regex \<Rightarrow> string \<Rightarrow> string" and a1 a2 a3 a4 a5 a6 v
    by simp
  have "remove_subtitle_credits t = pre @ post'"
    unfolding remove_subtitle_credits_def subtitle_patterns_def fold6
    by (simp only: first P2_eq second l3' l4' l5' l6')
  then show ?thesis by (simp add: post'_def dot_def)
qed

lemma remove_subtitle_credits_no_qtss:
  "\<not> contains (map lower t) ''qtss'' \<Longrightarrow> remove_subtitle_credits t = t"
proof -
  assume n: "\<not> contains (map lower t) ''qtss''"
  have "set ps \<subseteq> set subtitle_patterns \<Longrightarrow>
        fold (\<lambda>pattern text. re_sub flags_I_S pattern [] text) ps t = t" for ps
  proof (induction ps)
    case Nil
    show ?case by simp
  next
    case (Cons a ps)
    have "rmatch flags_I_S t a s Map.empty = []" if "s \<le> length t" for s
    proof (cases "rmatch flags_I_S t a s Map.empty")
      case Nil
      then show ?thesis .
    next
      case (Cons x xs)
      obtain q d where "x = (q, d)" by (cases x)
      with Cons have "(q, d) \<in> set (rmatch flags_I_S t a s Map.empty)" by simp
      from subtitle_pattern_needs_qtss[OF _ this that] Cons.prems n show ?thesis by simp
    qed
    then have "re_sub flags_I_S a [] t = t"
      by (rule re_sub_no_match)
    with Cons show ?case by simp
  qed
  then show ?thesis
    by (simp add: remove_subtitle_credits_def)
qed

subsection \<open>The white-space pass\<close>


















section \<open>Claims about the cleaner\<close>

text \<open>
  C9. \<open>clean_text\<close> is a total function: for every input (a string or \<open>None\<close>) it
  returns a result and raises nothing (neither the \<open>IndexError\<close> of \<open>words[-1]\<close> nor the
  \<open>ZeroDivisionError\<close> of the logged percentage can occur); \<open>None\<close> and the empty
  string are returned unchanged.
\<close>

theorem C9_clean_text_total:
  "(\<exists>cleaned reduction. clean_text text = Inr (cleaned, reduction))
   \<and> clean_text None = Inr (None, None)
   \<and> clean_text (Some []) = Inr (Some [], None)"
proof -
  have "\<exists>cleaned reduction. clean_text text = Inr (cleaned, reduction)"
  proof (cases "text")
    case None
    then show ?thesis by (simp add: clean_text_def)
  next
    case (Some t)
    obtain y where "remove_trailing_repetitions (remove_repetitive_patterns (remove_subtitle_credits t)) = Inr y"
      using remove_trailing_repetitions_total by blast
    with Some show ?thesis
      by (simp add: clean_text_def Let_def)
  qed
  then show ?thesis by (simp add: clean_text_def)
qed

text \<open>
  C10. The output of \<open>clean_text\<close> is never longer than its input, a logged reduction
  is the positive difference of the two lengths, and no pass (credits, repetitive
  patterns, trailing repetitions, whitespace, \<open>strip\<close>) lengthens its text.
\<close>

theorem C10_clean_text_never_longer:
  "(clean_text (Some t) = Inr (Some u, reduction)
      \<longrightarrow> length u \<le> length t
          \<and> (\<forall>r. reduction = Some r \<longrightarrow> 0 < r \<and> r = int (length t) - int (length u)))
   \<and> length (remove_subtitle_credits x) \<le> length x
   \<and> length (remove_repetitive_patterns x) \<le> length x
   \<and> (remove_trailing_repetitions x = Inr y \<longrightarrow> length y \<le> length x)
   \<and> length (cleanup_spaces x) \<le> length x
   \<and> length (py_strip x) \<le> length x"
proof -
  have "length u \<le> length t \<and> (\<forall>r. reduction = Some r \<longrightarrow> 0 < r \<and> r = int (length t) - int (length u))"
    if c: "clean_text (Some t) = Inr (Some u, reduction)"
  proof (cases "t = []")
    case True
    with c show ?thesis by (simp add: clean_text_def)
  next
    case False
    let ?t2 = "remove_repetitive_patterns (remove_subtitle_credits t)"
    obtain t3 where t3: "remove_trailing_repetitions ?t2 = Inr t3"
      using remove_trailing_repetitions_total by blast
    let ?u = "py_strip (cleanup_spaces t3)"
    from c False t3 have u: "u = ?u"
      and red: "reduction = (if length ?u < length t then Some (int (length t) - int (length ?u)) else None)"
      by (auto simp: clean_text_def Let_def split: if_splits)
    have "length ?u \<le> length (cleanup_spaces t3)"
      by (rule length_py_strip)
    also have "\<dots> \<le> length t3"
      by (rule length_cleanup_spaces)
    also have "\<dots> \<le> length ?t2"
      by (rule length_remove_trailing_repetitions[OF t3])
    also have "\<dots> \<le> length (remove_subtitle_credits t)"
      by (rule length_remove_repetitive_patterns)
    also have "\<dots> \<le> length t"
      by (rule length_remove_subtitle_credits)
    finally have "length ?u \<le> length t" .
    with u red show ?thesis by auto
  qed
  then show ?thesis
    using length_remove_subtitle_credits length_remove_repetitive_patterns
      length_remove_trailing_repetitions length_cleanup_spaces length_py_strip
    by blast
qed



theorem C10_clean_text_never_longer_witness:
  "clean_text (Some ''a  b'') = Inr (Some ''a b'', Some 1)
   \<and> length ''a b'' \<le> length ''a  b''
   \<and> remove_trailing_repetitions ''a  b'' = Inr ''a  b''"
proof -
  have e: "clean_text (Some ''a  b'') = Inr (Some ''a b'', Some 1)"
    by code_simp
  have f: "remove_trailing_repetitions ''a  b'' = Inr ''a  b''"
    by code_simp
  from C10_clean_text_never_longer[of "''a  b''" "''a b''" "Some 1" "''a  b''" "''a  b''"] e f
  show ?thesis by simp
qed

text \<open>
  C6, as stated, on the phrase followed by further text: \<open>clean_text\<close> returns the
  text as it is, the phrase included. The pattern for this credit wants \<open>community\<close>,
  then \<open>amara.org\<close>, then \<open>qtss\<close> after \<open>subtitles created by\<close>.
\<close>

theorem C6_phrase_not_removed:
  "clean_text (Some ''Subtitles created by the Amara.org community ok'')
     = Inr (Some ''Subtitles created by the Amara.org community ok'', None)"
  by code_simp

text \<open>
  C6, amended. Texts are strings of code points below 256. Take a text
  \<open>pre + credit + post\<close> whose credit is, in any letter case,
  \<open>subtitles created by\<close> ... \<open>community\<close> ... \<open>amara.org\<close> ... \<open>qtss\<close>, in which no
  opening phrase of a credit pattern occurs anywhere but at the start of this credit,
  and in which \<open>qtss\<close> occurs from the start of the credit on only as its last word.
  The credit pass removes the credit, with a full stop that follows it directly, and
  keeps \<open>pre\<close> and the rest of \<open>post\<close> as they are. A text that holds no \<open>qtss\<close> in any
  letter case (the bare phrase of the claim, say) is returned unchanged.
\<close>

theorem C6_credit_removed:
  "(t = pre @ c1 @ x @ c2 @ y @ c3 @ z @ c4 @ post
      \<and> map lower c1 = ''subtitles created by''
      \<and> map lower c2 = ''community''
      \<and> map lower c3 = ''amara.org''
      \<and> map lower c4 = ''qtss''
      \<and> map (\<lambda>opening. occurrences (map lower t) (map lower opening)) credit_openings
            = [[], [length pre], [], [], [], []]
      \<and> filter (\<lambda>p. length pre \<le> p) (occurrences (map lower t) ''qtss'')
            = [length (pre @ c1 @ x @ c2 @ y @ c3 @ z)]
    \<longrightarrow> remove_subtitle_credits t
          = pre @ (if post \<noteq> [] \<and> hd post = CHR ''.'' then tl post else post))
   \<and> (\<not> contains (map lower u) ''qtss'' \<longrightarrow> remove_subtitle_credits u = u)"
proof (intro conjI impI)
  assume "t = pre @ c1 @ x @ c2 @ y @ c3 @ z @ c4 @ post
      \<and> map lower c1 = ''subtitles created by''
      \<and> map lower c2 = ''community''
      \<and> map lower c3 = ''amara.org''
      \<and> map lower c4 = ''qtss''
      \<and> map (\<lambda>opening. occurrences (map lower t) (map lower opening)) credit_openings
            = [[], [length pre], [], [], [], []]
      \<and> filter (\<lambda>p. length pre \<le> p) (occurrences (map lower t) ''qtss'')
            = [length (pre @ c1 @ x @ c2 @ y @ c3 @ z)]"
  then show "remove_subtitle_credits t
          = pre @ (if post \<noteq> [] \<and> hd post = CHR ''.'' then tl post else post)"
    by (elim conjE) (rule credit_removed; assumption)
next
  assume "\<not> contains (map lower u) ''qtss''"
  then show "remove_subtitle_credits u = u"
    by (rule remove_subtitle_credits_no_qtss)
qed

theorem C6_credit_removed_witness:
  "remove_subtitle_credits ''Hi. Subtitles created by the community of Amara.org QTSS. Bye'' = ''Hi.  Bye''
   \<and> remove_subtitle_credits ''Subtitles created by the Amara.org community ok''
       = ''Subtitles created by the Amara.org community ok''"
proof -
  let ?t = "''Hi. Subtitles created by the community of Amara.org QTSS. Bye''"
  let ?u = "''Subtitles created by the Amara.org community ok''"
  have 1: "?t = ''Hi. '' @ ''Subtitles created by'' @ '' the '' @ ''community'' @ '' of '' @ ''Amara.org''
             @ '' '' @ ''QTSS'' @ ''. Bye''"
    by simp
  have 2: "map lower ''Subtitles created by'' = ''subtitles created by''"
    and 3: "map lower ''community'' = ''community''"
    and 4: "map lower ''Amara.org'' = ''amara.org''"
    and 5: "map lower ''QTSS'' = ''qtss''"
    by code_simp+
  have 6: "map (\<lambda>opening. occurrences (map lower ?t) (map lower opening)) credit_openings
             = [[], [length ''Hi. ''], [], [], [], []]"
    by code_simp
  have 7: "filter (\<lambda>p. length ''Hi. '' \<le> p) (occurrences (map lower ?t) ''qtss'')
             = [length (''Hi. '' @ ''Subtitles created by'' @ '' the '' @ ''community'' @ '' of ''
                        @ ''Amara.org'' @ '' '')]"
    by code_simp
  have 8: "\<not> contains (map lower ?u) ''qtss''"
    by code_simp
  have 9: "''Hi. '' @ (if ''. Bye'' \<noteq> [] \<and> hd ''. Bye'' = CHR ''.'' then tl ''. Bye'' else ''. Bye'') = ''Hi.  Bye''"
    by simp
  note c = C6_credit_removed[of ?t "''Hi. ''" "''Subtitles created by''" "'' the ''" "''community''" "'' of ''"
      "''Amara.org''" "'' ''" "''QTSS''" "''. Bye''" ?u]
  note h = conjI[OF 1 conjI[OF 2 conjI[OF 3 conjI[OF 4 conjI[OF 5 conjI[OF 6 7]]]]]]
  have "remove_subtitle_credits ?t
          = ''Hi. '' @ (if ''. Bye'' \<noteq> [] \<and> hd ''. Bye'' = CHR ''.'' then tl ''. Bye'' else ''. Bye'')"
    by (rule c[THEN conjunct1, THEN mp, OF h])
  moreover have "remove_subtitle_credits ?u = ?u"
    by (rule c[THEN conjunct2, THEN mp, OF 8])
  ultimately show ?thesis
    unfolding 9 by (rule conjI)
qed




end
